theory Spec2Isabelle
  imports Main
begin

section \<open>Data model of the pipeline dashboard (frontend/src/App.js)\<close>

text \<open>
  The component \<open>YoutubePipeline\<close> keeps its state in React state variables and drives a
  socket.io connection. The model below is a shallow embedding of that component: the
  state variables and the socket object become one record, every socket handler and every
  user operation becomes a function from state to state. Handlers run one at a time
  (JavaScript is single threaded) and the component re-renders between two of them, so the
  state a handler reads through its closure is the state left by the previous one.
\<close>

datatype status = Idle | Running | Completed | Error | Stopped

text \<open>An entry of \<open>executionStates\<close>: \<open>{ progress, status }\<close>.\<close>

record exec_state =
  progress :: int
  status :: status

text \<open>
  An entry of \<open>logs\<close>: \<open>{ message, type, timestamp }\<close>. The timestamp is the wall clock
  (\<open>new Date()\<close>) and is never read by the component; it is left out.
\<close>

record log_entry =
  message :: string
  type :: string

text \<open>
  A stage descriptor of \<open>mainStages\<close> and \<open>pipelineStages\<close>: \<open>{ id, name, icon, file }\<close>
  (here \<open>sid\<close>, \<open>sname\<close>, \<open>sfile\<close>).
  The icon is presentation only.
\<close>

record stage =
  sid :: string
  sname :: string
  sfile :: string

text \<open>The payload of an \<open>execution_complete\<close> message: \<open>{ stage_id, status }\<close>.\<close>

record completion =
  c_stage_id :: string
  c_status :: string

text \<open>
  The text of the input field, as JavaScript has it: a sequence of UTF-16 code units.
  (For every other string of the component only equality and emptiness matter, and it is
  a \<open>string\<close>.)
\<close>

type_synonym input_text = "nat list"

text \<open>Messages the component emits on the socket.\<close>

datatype out_msg =
  ExecuteStage string string
  | SendInput string input_text
  | StopStage string

text \<open>
  Messages the component listens to. \<open>script_output\<close> carries \<open>stage_id\<close>, \<open>output\<close> and an
  optional \<open>type\<close> (\<open>addLog\<close> defaults it to \<open>info\<close>).
\<close>

datatype event =
  Connected
  | ScriptOutput string string "string option"
  | RequestInput string string
  | ExecutionStarted string
  | ExecutionComplete completion
  | ExecutionError string string
  | InputSent string

text \<open>
  A listener attached to \<open>execution_complete\<close> by \<open>executeStageAndWait\<close>: the closure
  \<open>handleComplete\<close> of one call. \<open>w_id\<close> is the identity of that closure and of the
  promise it resolves, \<open>w_stage\<close> the stage it waits for, and \<open>w_rest\<close> the stages that the
  suspended loop of \<open>startFullPipeline\<close> has still to run once the promise resolves.
\<close>

record waiter =
  w_id :: nat
  w_stage :: stage
  w_rest :: "stage list"

text \<open>
  The state. The first seven fields are the React state variables (\<open>socket\<close> is \<open>True\<close>
  when the variable holds the socket object, \<open>False\<close> when it is \<open>null\<close>;
  \<open>hoveredStage\<close> is presentation only). The last four describe the socket object and the
  promises: the messages emitted so far, the listeners that \<open>executeStageAndWait\<close> has
  attached to \<open>execution_complete\<close> (in the order of attachment, after the permanent
  handler of the mount effect), the number of promises created, and every call of a
  promise's \<open>resolve\<close> with the value passed. \<open>channel_open\<close> is the state of the
  connection to the backend (\<open>socket.connected\<close> of socket.io): the socket object exists
  from the mount effect on, whether or not the backend is reached, and \<open>socket.emit\<close> on
  a socket that is not connected keeps the message in the send buffer of the socket and
  sends it once the connection is made. No line of the component reads this state.
\<close>

record world =
  selectedStage :: "string option"
  logs :: "log_entry list"
  executionStates :: "(string \<times> exec_state) list"
  currentInput :: input_text
  waitingForInput :: "string option"
  socket :: bool
  isAutoRunning :: bool
  emitted :: "out_msg list"
  listeners :: "waiter list"
  next_id :: nat
  resolutions :: "(nat \<times> completion) list"
  channel_open :: bool

definition init :: world where
  "init = \<lparr> selectedStage = None, logs = [], executionStates = [], currentInput = [],
     waitingForInput = None, socket = False, isAutoRunning = False, emitted = [],
     listeners = [], next_id = 0, resolutions = [], channel_open = False \<rparr>"

definition mainStages :: "stage list" where
  "mainStages =
    [ \<lparr> sid = ''create-profile'', sname = ''Create Profile'', sfile = ''profile_generator.py'' \<rparr>,
      \<lparr> sid = ''channel-info'', sname = ''Channel Info'', sfile = ''channel_info.py'' \<rparr>,
      \<lparr> sid = ''clean-base'', sname = ''Clean Base'', sfile = ''clean_bases.py'' \<rparr> ]"

definition pipelineStages :: "stage list" where
  "pipelineStages =
    [ \<lparr> sid = ''get-scripts'', sname = ''Get Scripts'', sfile = ''get_scripts.py'' \<rparr>,
      \<lparr> sid = ''srt-generator'', sname = ''SRT Generator'', sfile = ''srt_generator.py'' \<rparr>,
      \<lparr> sid = ''image-suggestions'', sname = ''Image Suggestions'',
        sfile = ''suggestion_generator.py'' \<rparr>,
      \<lparr> sid = ''image-generator'', sname = ''Image Generator'', sfile = ''image_generator.py'' \<rparr>,
      \<lparr> sid = ''image-render'', sname = ''Image Render'', sfile = ''make_and_render.py'' \<rparr> ]"

section \<open>JavaScript values\<close>

text \<open>
  \<open>executionStates\<close> is a plain object. Its own string keys are enumerated in the order
  of their creation, so it is an association list: \<open>{...prev, [k]: v}\<close> replaces the value
  of an existing key in place and appends a new key. (Keys that are array indices would be
  enumerated first; no stage id of the catalog is one.)
\<close>

fun set_key :: "string \<Rightarrow> exec_state \<Rightarrow> (string \<times> exec_state) list \<Rightarrow> (string \<times> exec_state) list" where
  "set_key k v [] = [(k, v)]"
| "set_key k v ((k', v') # kvs) = (if k' = k then (k, v) # kvs else (k', v') # set_key k v kvs)"

definition get_key :: "(string \<times> exec_state) list \<Rightarrow> string \<Rightarrow> exec_state option" where
  "get_key kvs k = map_of kvs k"

text \<open>
  Truthiness of a state variable that holds \<open>null\<close> or a string: \<open>null\<close> and the empty
  string are falsy.
\<close>

fun truthy :: "string option \<Rightarrow> bool" where
  "truthy None = False"
| "truthy (Some str) = (str \<noteq> [])"

text \<open>
  \<open>String.prototype.trim\<close> removes the white space and the line terminators of
  ECMAScript from both ends: TAB, LF, VT, FF, CR, SP, NBSP, U+1680, U+2000 to U+200A,
  U+2028, U+2029, U+202F, U+205F, U+3000 and U+FEFF.
\<close>

definition is_space :: "nat \<Rightarrow> bool" where
  "is_space c \<longleftrightarrow>
     c \<in> {9, 10, 11, 12, 13, 32, 160, 5760, 8232, 8233, 8239, 8287, 12288, 65279}
     \<or> (8192 \<le> c \<and> c \<le> 8202)"

definition trim :: "input_text \<Rightarrow> input_text" where
  "trim str = rev (dropWhile is_space (rev (dropWhile is_space str)))"

text \<open>The decimal text of a number, as a template literal prints \<open>runningIds.length\<close>.\<close>

definition digit :: "nat \<Rightarrow> char" where
  "digit d = char_of (48 + d)"

function show_nat :: "nat \<Rightarrow> string" where
  "show_nat n = (if n < 10 then [digit n] else show_nat (n div 10) @ [digit (n mod 10)])"
  by pat_completeness auto
termination
  by (relation "measure (\<lambda>n. n)") auto

declare show_nat.simps [simp del]

section \<open>State helpers\<close>

definition addLog :: "string \<Rightarrow> string \<Rightarrow> world \<Rightarrow> world" where
  "addLog m t s = s\<lparr> logs := logs s @ [\<lparr> message = m, type = t \<rparr>] \<rparr>"

definition setExecutionState :: "string \<Rightarrow> exec_state \<Rightarrow> world \<Rightarrow> world" where
  "setExecutionState k v s = s\<lparr> executionStates := set_key k v (executionStates s) \<rparr>"

definition updateProgress :: "string \<Rightarrow> status \<Rightarrow> world \<Rightarrow> world" where
  "updateProgress stageId st s =
    (let current = (case get_key (executionStates s) stageId of
                      None \<Rightarrow> \<lparr> progress = 0, status = Idle \<rparr>
                    | Some c \<Rightarrow> c);
         newProgress = min (progress current + 5) 95
     in setExecutionState stageId \<lparr> progress = newProgress, status = st \<rparr> s)"

section \<open>Handlers of inbound messages\<close>

text \<open>The handlers that the mount effect registers once on the new socket.\<close>

definition on_connected :: "world \<Rightarrow> world" where
  "on_connected s = addLog ''Connected to backend'' ''system'' s"

definition on_script_output :: "string \<Rightarrow> string \<Rightarrow> string option \<Rightarrow> world \<Rightarrow> world" where
  "on_script_output stage_id output ty s =
    updateProgress stage_id Running
      (addLog output (case ty of None \<Rightarrow> ''info'' | Some t \<Rightarrow> t) s)"

definition on_request_input :: "string \<Rightarrow> string \<Rightarrow> world \<Rightarrow> world" where
  "on_request_input stage_id prompt s =
    (addLog prompt ''input'' s)\<lparr> waitingForInput := Some stage_id \<rparr>"

definition on_execution_started :: "string \<Rightarrow> world \<Rightarrow> world" where
  "on_execution_started stage_id s =
    setExecutionState stage_id \<lparr> progress = 0, status = Running \<rparr>
      (addLog (''Starting execution of '' @ stage_id @ ''...'') ''system'' s)"

definition complete_status :: "string \<Rightarrow> status" where
  "complete_status st =
    (if st = ''success'' then Completed else if st = ''stopped'' then Stopped else Error)"

definition on_execution_complete :: "completion \<Rightarrow> world \<Rightarrow> world" where
  "on_execution_complete d s =
    addLog (''Execution '' @ (if c_status d = ''success'' then ''completed successfully''
                              else ''failed'') @ ''!'')
           (if c_status d = ''success'' then ''success'' else ''error'')
      (setExecutionState (c_stage_id d)
         \<lparr> progress = 100, status = complete_status (c_status d) \<rparr> s)"

definition on_execution_error :: "string \<Rightarrow> string \<Rightarrow> world \<Rightarrow> world" where
  "on_execution_error stage_id err s =
    setExecutionState stage_id \<lparr> progress = 0, status = Error \<rparr>
      (addLog (''Error: '' @ err) ''error'' s)"

definition on_input_sent :: "string \<Rightarrow> world \<Rightarrow> world" where
  "on_input_sent input s = addLog (''> '' @ input) ''user'' s"

section \<open>Operations\<close>

definition executeStage :: "stage \<Rightarrow> world \<Rightarrow> world" where
  "executeStage st s =
    (if \<not> socket s then addLog ''Not connected to backend'' ''error'' s
     else s\<lparr> selectedStage := Some (sid st),
             emitted := emitted s @ [ExecuteStage (sid st) (sfile st)] \<rparr>)"

text \<open>
  \<open>executeStageAndWait\<close> creates a promise (numbered \<open>next_id\<close>). Without a socket it logs
  and resolves the promise at once with \<open>{ stage_id, status: 'error' }\<close>; the result is then
  returned with the state. Otherwise it attaches \<open>handleComplete\<close> to \<open>execution_complete\<close>,
  calls \<open>executeStage\<close>, and the promise stays pending (\<open>None\<close>). The second argument is
  what the caller, suspended at its \<open>await\<close>, has still to do.
\<close>

definition executeStageAndWait :: "stage \<Rightarrow> stage list \<Rightarrow> world \<Rightarrow> world \<times> completion option" where
  "executeStageAndWait st rest s =
    (let n = next_id s; s1 = s\<lparr> next_id := Suc n \<rparr> in
     if \<not> socket s1 then
       (let r = \<lparr> c_stage_id = sid st, c_status = ''error'' \<rparr> in
        ((addLog ''Not connected to backend'' ''error'' s1)
           \<lparr> resolutions := resolutions s1 @ [(n, r)] \<rparr>, Some r))
     else
       (executeStage st
          (s1\<lparr> listeners := listeners s1 @ [\<lparr> w_id = n, w_stage = st, w_rest = rest \<rparr>] \<rparr>),
        None))"

text \<open>
  The listener of one call: an \<open>execution_complete\<close> for another stage is ignored;
  otherwise the listener takes itself off the socket and resolves its promise.
\<close>

definition handleComplete :: "waiter \<Rightarrow> completion \<Rightarrow> world \<Rightarrow> world" where
  "handleComplete w d s =
    (if c_stage_id d \<noteq> sid (w_stage w) then s
     else s\<lparr> listeners := filter (\<lambda>v. w_id v \<noteq> w_id w) (listeners s),
             resolutions := resolutions s @ [(w_id w, d)] \<rparr>)"

text \<open>
  The loop of \<open>startFullPipeline\<close>. \<open>halted st\<close> is the body of the \<open>if\<close> after the
  \<open>await\<close>; \<open>pipeline_loop stages\<close> runs the loop over the stages that are left, up to the
  next \<open>await\<close> on a pending promise, where the function is suspended, or to its end.
\<close>

definition halted :: "stage \<Rightarrow> world \<Rightarrow> world" where
  "halted st s = (addLog (''Pipeline halted at '' @ sname st) ''error'' s)\<lparr> isAutoRunning := False \<rparr>"

fun pipeline_loop :: "stage list \<Rightarrow> world \<Rightarrow> world" where
  "pipeline_loop [] s =
    (addLog ''Pipeline completed successfully!'' ''success'' s)\<lparr> isAutoRunning := False \<rparr>"
| "pipeline_loop (st # rest) s =
    (case executeStageAndWait st rest (s\<lparr> selectedStage := Some (sid st) \<rparr>) of
       (s1, None) \<Rightarrow> s1
     | (s1, Some result) \<Rightarrow>
         if c_status result \<noteq> ''success'' then halted st s1 else pipeline_loop rest s1)"

text \<open>
  The continuation of a suspended \<open>startFullPipeline\<close> when the promise of waiter \<open>w\<close>
  resolves with \<open>result\<close>.
\<close>

definition resume :: "waiter \<Rightarrow> completion \<Rightarrow> world \<Rightarrow> world" where
  "resume w result s =
    (if c_status result \<noteq> ''success'' then halted (w_stage w) s
     else pipeline_loop (w_rest w) s)"

text \<open>
  \<open>startFullPipeline\<close> runs \<open>startFullPipelineOn pipelineStages\<close>: the list of stages is a
  parameter so that properties of the loop can be stated for any ordered pipeline.
\<close>

definition startFullPipelineOn :: "stage list \<Rightarrow> world \<Rightarrow> world" where
  "startFullPipelineOn stages s =
    (if \<not> socket s then addLog ''Not connected to backend'' ''error'' s
     else if isAutoRunning s then s
     else pipeline_loop stages
            (addLog ''Starting full pipeline...'' ''system'' (s\<lparr> isAutoRunning := True \<rparr>)))"

definition startFullPipeline :: "world \<Rightarrow> world" where
  "startFullPipeline s = startFullPipelineOn pipelineStages s"

definition runningIds :: "world \<Rightarrow> string list" where
  "runningIds s = map fst (filter (\<lambda>(k, st). status st = Running) (executionStates s))"

definition shutdownAll :: "world \<Rightarrow> world" where
  "shutdownAll s =
    (if \<not> socket s then s
     else if length (runningIds s) = 0 then addLog ''No running stages to stop.'' ''system'' s
     else
       (let s1 = s\<lparr> emitted := emitted s @ map StopStage (runningIds s) \<rparr>;
            s2 = addLog (''Shutdown requested for '' @ show_nat (length (runningIds s))
                          @ '' stage(s).'') ''system'' s1;
            s3 = s2\<lparr> waitingForInput := None \<rparr>;
            s4 = s3\<lparr> isAutoRunning := False \<rparr>
        in s4\<lparr> executionStates :=
                 foldl (\<lambda>next k. set_key k \<lparr> progress = 0, status = Stopped \<rparr> next)
                   (executionStates s4) (runningIds s) \<rparr>))"

definition handleInputSubmit :: "world \<Rightarrow> world" where
  "handleInputSubmit s =
    (if trim (currentInput s) \<noteq> [] \<and> socket s \<and> truthy (waitingForInput s) then
       s\<lparr> emitted := emitted s @ [SendInput (the (waitingForInput s)) (trim (currentInput s))],
          currentInput := [],
          waitingForInput := None \<rparr>
     else s)"

definition clearLogs :: "world \<Rightarrow> world" where
  "clearLogs s = s\<lparr> logs := [], executionStates := [] \<rparr>"

definition stopExecution :: "world \<Rightarrow> world" where
  "stopExecution s =
    (if \<not> socket s \<or> \<not> truthy (selectedStage s) then s
     else
       (let sel = the (selectedStage s);
            s1 = s\<lparr> emitted := emitted s @ [StopStage sel] \<rparr>;
            s2 = addLog ''Stop requested...'' ''system'' s1;
            s3 = s2\<lparr> logs := [] \<rparr>;
            s4 = s3\<lparr> waitingForInput := None \<rparr>
        in setExecutionState sel \<lparr> progress = 0, status = Stopped \<rparr> s4))"

section \<open>Dispatch\<close>

text \<open>
  An \<open>execution_complete\<close> message runs the permanent handler, then every listener that is
  attached when the message arrives, in the order of attachment. The functions suspended
  on the promises resolved by these listeners continue afterwards (as microtasks), in the
  order of resolution. Every other message has its permanent handler only.
\<close>

definition fired :: "completion \<Rightarrow> waiter list \<Rightarrow> waiter list" where
  "fired d ws = filter (\<lambda>w. c_stage_id d = sid (w_stage w)) ws"

definition dispatch_complete :: "completion \<Rightarrow> world \<Rightarrow> world" where
  "dispatch_complete d s =
    (let s1 = on_execution_complete d s;
         ws = listeners s1;
         s2 = foldl (\<lambda>s' w. handleComplete w d s') s1 ws
     in foldl (\<lambda>s' w. resume w d s') s2 (fired d ws))"

fun handle_event :: "event \<Rightarrow> world \<Rightarrow> world" where
  "handle_event Connected s = on_connected s"
| "handle_event (ScriptOutput stage_id output ty) s = on_script_output stage_id output ty s"
| "handle_event (RequestInput stage_id prompt) s = on_request_input stage_id prompt s"
| "handle_event (ExecutionStarted stage_id) s = on_execution_started stage_id s"
| "handle_event (ExecutionComplete d) s = dispatch_complete d s"
| "handle_event (ExecutionError stage_id err) s = on_execution_error stage_id err s"
| "handle_event (InputSent input) s = on_input_sent input s"

text \<open>
  What the user can do: the mount effect stores the socket, a click on a stage runs
  \<open>executeStage\<close>, the buttons run \<open>startFullPipeline\<close>, \<open>shutdownAll\<close>, \<open>stopExecution\<close>
  and \<open>clearLogs\<close>, the input field sets \<open>currentInput\<close> and the form runs
  \<open>handleInputSubmit\<close>. The \<open>disabled\<close> attributes of the buttons are not part of the
  functions and are not modelled: every operation may run in every state.
\<close>

datatype command =
  Mount
  | ClickStage stage
  | StartAll
  | ShutdownAll
  | Stop
  | Clear
  | ChangeInput input_text
  | SubmitInput

fun do_command :: "command \<Rightarrow> world \<Rightarrow> world" where
  "do_command Mount s = s\<lparr> socket := True \<rparr>"
| "do_command (ClickStage st) s = executeStage st s"
| "do_command StartAll s = startFullPipeline s"
| "do_command ShutdownAll s = shutdownAll s"
| "do_command Stop s = stopExecution s"
| "do_command Clear s = clearLogs s"
| "do_command (ChangeInput txt) s = s\<lparr> currentInput := txt \<rparr>"
| "do_command SubmitInput s = handleInputSubmit s"

text \<open>
  A step of the component is a message from the backend or an operation of the user. The
  environment can also make or lose the connection (\<open>Link True\<close>, \<open>Link False\<close>: the
  \<open>connect\<close> and \<open>disconnect\<close> events of socket.io, for which the component registers no
  handler).
\<close>

datatype action = Inbound event | User command | Link bool

fun step :: "action \<Rightarrow> world \<Rightarrow> world" where
  "step (Inbound e) s = handle_event e s"
| "step (User c) s = do_command c s"
| "step (Link b) s = s\<lparr> channel_open := b \<rparr>"

definition run :: "action list \<Rightarrow> world \<Rightarrow> world" where
  "run acts s = foldl (\<lambda>s' a. step a s') s acts"

inductive reachable :: "world \<Rightarrow> bool" where
  reachable_init: "reachable init"
| reachable_step: "reachable s \<Longrightarrow> reachable (step a s)"

section \<open>Predicates on messages and states\<close>

text \<open>
  The progress shown for a stage: that of its entry, and 0 without entry (the default
  that \<open>updateProgress\<close> uses).
\<close>

definition progress_of :: "string \<Rightarrow> world \<Rightarrow> int" where
  "progress_of k s = (case get_key (executionStates s) k of None \<Rightarrow> 0 | Some c \<Rightarrow> progress c)"

text \<open>A \<open>script_output\<close> message for stage \<open>k\<close>.\<close>

fun is_output_for :: "string \<Rightarrow> event \<Rightarrow> bool" where
  "is_output_for k (ScriptOutput k' out ty) = (k' = k)"
| "is_output_for k _ = False"

text \<open>An \<open>execution_complete\<close> message for stage \<open>k\<close>.\<close>

fun is_complete_for :: "string \<Rightarrow> event \<Rightarrow> bool" where
  "is_complete_for k (ExecutionComplete d) = (c_stage_id d = k)"
| "is_complete_for k _ = False"

text \<open>The stage whose entry of \<open>executionStates\<close> the handler of a message may write.\<close>

fun ev_stage :: "event \<Rightarrow> string option" where
  "ev_stage Connected = None"
| "ev_stage (ScriptOutput k out ty) = Some k"
| "ev_stage (RequestInput k prompt) = Some k"
| "ev_stage (ExecutionStarted k) = Some k"
| "ev_stage (ExecutionComplete d) = Some (c_stage_id d)"
| "ev_stage (ExecutionError k err) = Some k"
| "ev_stage (InputSent input) = None"

text \<open>
  Two states agree on everything but the log, the execution states and the pending
  input.
\<close>

definition control_eq :: "world \<Rightarrow> world \<Rightarrow> bool" where
  "control_eq s s' \<longleftrightarrow>
     socket s' = socket s \<and> isAutoRunning s' = isAutoRunning s \<and> emitted s' = emitted s
     \<and> listeners s' = listeners s \<and> next_id s' = next_id s \<and> resolutions s' = resolutions s
     \<and> selectedStage s' = selectedStage s \<and> currentInput s' = currentInput s"

text \<open>
  The bookkeeping of listeners and promises is consistent: the attached listeners are
  distinct closures, no promise has two resolutions, every identity in use was handed out
  by the counter, and the promise of an attached listener is still pending.
\<close>

definition observers_ok :: "world \<Rightarrow> bool" where
  "observers_ok s \<longleftrightarrow>
     distinct (map w_id (listeners s)) \<and> distinct (map fst (resolutions s))
     \<and> list_all (\<lambda>w. w_id w < next_id s) (listeners s)
     \<and> list_all (\<lambda>r. fst r < next_id s) (resolutions s)
     \<and> list_all (\<lambda>w. w_id w \<notin> set (map fst (resolutions s))) (listeners s)"

text \<open>
  What every stored entry satisfies: the progress is between 0 and 100, the status
  \<open>idle\<close> is never stored, a \<open>completed\<close> entry has progress 100, a \<open>running\<close> entry
  has at most 95, and a \<open>stopped\<close> or \<open>error\<close> entry has 0 or 100.
\<close>

definition entry_ok :: "exec_state \<Rightarrow> bool" where
  "entry_ok v \<longleftrightarrow>
     0 \<le> progress v \<and> progress v \<le> 100 \<and> status v \<noteq> Idle
     \<and> (if status v = Completed then progress v = 100
         else if status v = Running then progress v \<le> 95
         else progress v = 0 \<or> progress v = 100)"

definition store_ok :: "world \<Rightarrow> bool" where
  "store_ok s = list_all (\<lambda>kv. entry_ok (snd kv)) (executionStates s)"

text \<open>The state of \<open>dispatch_complete\<close> once the attached listeners have run.\<close>

definition after_listeners :: "completion \<Rightarrow> world \<Rightarrow> world" where
  "after_listeners d s = foldl (\<lambda>s' w. handleComplete w d s') s (listeners s)"

section \<open>Example states\<close>

text \<open>
  Concrete states used to instantiate the theorems below. \<open>get_scripts\<close> and
  \<open>srt_generator\<close> are the first two stages of \<open>pipelineStages\<close>.
\<close>

definition get_scripts :: stage where
  "get_scripts = \<lparr> sid = ''get-scripts'', sname = ''Get Scripts'', sfile = ''get_scripts.py'' \<rparr>"

definition srt_generator :: stage where
  "srt_generator =
    \<lparr> sid = ''srt-generator'', sname = ''SRT Generator'', sfile = ''srt_generator.py'' \<rparr>"

text \<open>The component after its mount effect; the backend has not been reached.\<close>

definition ex_mounted :: world where
  "ex_mounted = run [User Mount] init"

text \<open>A full pipeline run that waits for its first stage.\<close>

definition ex_auto :: world where
  "ex_auto = run [User Mount, User StartAll] init"

text \<open>A stage that runs and has asked for input; the user has typed two blanks (U+0020).\<close>

definition ex_prompt :: world where
  "ex_prompt = run [User Mount, User (ClickStage get_scripts),
     Inbound (ExecutionStarted ''get-scripts''),
     Inbound (RequestInput ''get-scripts'' ''Channel name?''),
     User (ChangeInput [32, 32])] init"

text \<open>A stage that has completed.\<close>

definition ex_completed :: world where
  "ex_completed = run [User Mount, User (ClickStage get_scripts),
     Inbound (ExecutionStarted ''get-scripts''),
     Inbound (ExecutionComplete \<lparr> c_stage_id = ''get-scripts'', c_status = ''success'' \<rparr>)] init"

text \<open>
  A stage runs and has asked for input, the user has typed \<open>ok\<close>, and then the
  connection to the backend is lost.
\<close>

definition ex_dropped :: world where
  "ex_dropped = run [User Mount, Link True, User (ClickStage get_scripts),
     Inbound (ExecutionStarted ''get-scripts''),
     Inbound (RequestInput ''get-scripts'' ''Channel name?''),
     User (ChangeInput [111, 107]), Link False] init"

text \<open>
  A pipeline run with two running stages, a completed one between them, and an open
  prompt.
\<close>

definition ex_three :: world where
  "ex_three = run [User Mount, User StartAll,
     Inbound (ExecutionStarted ''get-scripts''),
     Inbound (ExecutionStarted ''channel-info''),
     Inbound (ExecutionComplete \<lparr> c_stage_id = ''channel-info'', c_status = ''success'' \<rparr>),
     Inbound (ExecutionStarted ''clean-base''),
     Inbound (RequestInput ''clean-base'' ''Delete all?'')] init"

text \<open>Nineteen lines of output for a stage.\<close>

definition ex_capped :: world where
  "ex_capped =
    run (User Mount # map Inbound (replicate 19 (ScriptOutput ''get-scripts'' ''line'' None))) init"

text \<open>A stage whose run the backend reports as stopped, and one it reports as failed.\<close>

definition ex_backend_stopped :: world where
  "ex_backend_stopped = run [User Mount, User (ClickStage get_scripts),
     Inbound (ExecutionStarted ''get-scripts''),
     Inbound (ExecutionComplete \<lparr> c_stage_id = ''get-scripts'', c_status = ''stopped'' \<rparr>)] init"

definition ex_backend_failed :: world where
  "ex_backend_failed = run [User Mount, User (ClickStage get_scripts),
     Inbound (ExecutionStarted ''get-scripts''),
     Inbound (ExecutionComplete \<lparr> c_stage_id = ''get-scripts'', c_status = ''error'' \<rparr>)] init"

text \<open>
  A full pipeline run in which the first stage succeeds and the second fails, with the
  messages of the two stages in between.
\<close>

definition later_stages :: "stage list" where
  "later_stages = drop 2 pipelineStages"

definition ex_es1 :: "event list" where
  "ex_es1 = [ExecutionStarted ''get-scripts'', ScriptOutput ''get-scripts'' ''fetching'' None]"

definition ex_es2 :: "event list" where
  "ex_es2 = [ExecutionStarted ''srt-generator'',
     ScriptOutput ''srt-generator'' ''writing'' (Some ''info''),
     RequestInput ''srt-generator'' ''Language?'']"

definition ex_halted :: world where
  "ex_halted =
    run (map Inbound (ex_es1
           @ [ExecutionComplete \<lparr> c_stage_id = ''get-scripts'', c_status = ''success'' \<rparr>]
           @ ex_es2
           @ [ExecutionComplete \<lparr> c_stage_id = ''srt-generator'', c_status = ''error'' \<rparr>]))
      (startFullPipeline ex_mounted)"

text \<open>The listener that \<open>ex_auto\<close> has attached for its first stage.\<close>

definition ex_waiter :: waiter where
  "ex_waiter = \<lparr> w_id = 0, w_stage = get_scripts, w_rest = tl pipelineStages \<rparr>"

section \<open>Basic facts\<close>

lemma get_key_set_key:
  "get_key (set_key k v kvs) k' = (if k' = k then Some v else get_key kvs k')"
  by (induction kvs) (auto simp: get_key_def)

lemma trim_empty_iff: "trim str = [] \<longleftrightarrow> (\<forall>c\<in>set str. is_space c)"
proof
  assume "trim str = []"
  then have a: "\<forall>c\<in>set (dropWhile is_space str). is_space c"
    by (simp add: trim_def dropWhile_eq_Nil_conv)
  have "dropWhile is_space str = []"
  proof (rule ccontr)
    assume n: "dropWhile is_space str \<noteq> []"
    then have "\<not> is_space (hd (dropWhile is_space str))" by (rule hd_dropWhile)
    with a n show False by (metis list.set_sel(1))
  qed
  then show "\<forall>c\<in>set str. is_space c" by (simp add: dropWhile_eq_Nil_conv)
next
  assume "\<forall>c\<in>set str. is_space c"
  then show "trim str = []"
    by (auto simp: trim_def dropWhile_eq_Nil_conv dest: set_dropWhileD)
qed

lemmas op_defs = addLog_def setExecutionState_def updateProgress_def executeStage_def
  executeStageAndWait_def halted_def startFullPipeline_def startFullPipelineOn_def
  on_connected_def on_script_output_def on_request_input_def on_execution_started_def
  on_execution_complete_def on_execution_error_def on_input_sent_def complete_status_def
  dispatch_complete_def handleComplete_def fired_def resume_def
  pipelineStages_def get_scripts_def srt_generator_def run_def init_def get_key_def

lemma pipelineStages_split: "pipelineStages = get_scripts # srt_generator # later_stages"
  by (simp add: pipelineStages_def get_scripts_def srt_generator_def later_stages_def)

lemma ex_auto_fields: "socket ex_auto" "isAutoRunning ex_auto"
  by (simp_all add: ex_auto_def op_defs)

lemma ex_prompt_fields:
  "socket ex_prompt" "selectedStage ex_prompt = Some ''get-scripts''"
  "currentInput ex_prompt = [32, 32]" "waitingForInput ex_prompt = Some ''get-scripts''"
  "emitted ex_prompt = [ExecuteStage ''get-scripts'' ''get_scripts.py'']"
  "length (logs ex_prompt) = 2"
  by (simp_all add: ex_prompt_def op_defs)

lemma ex_completed_fields:
  "get_key (executionStates ex_completed) ''get-scripts'' =
     Some \<lparr> progress = 100, status = Completed \<rparr>"
  by (simp add: ex_completed_def op_defs)

lemma show_nat_1: "show_nat (Suc 0) = ''1''"
proof -
  have "show_nat 1 = ''1''" by code_simp
  then show ?thesis by simp
qed

lemma ex_dropped_fields:
  "socket ex_dropped" "\<not> channel_open ex_dropped"
  "selectedStage ex_dropped = Some ''get-scripts''"
  "waitingForInput ex_dropped = Some ''get-scripts''"
  "currentInput ex_dropped = [111, 107]"
  "emitted ex_dropped = [ExecuteStage ''get-scripts'' ''get_scripts.py'']"
  "logs ex_dropped =
     [\<lparr> message = ''Starting execution of get-scripts...'', type = ''system'' \<rparr>,
      \<lparr> message = ''Channel name?'', type = ''input'' \<rparr>]"
  "executionStates ex_dropped = [(''get-scripts'', \<lparr> progress = 0, status = Running \<rparr>)]"
  by (simp_all add: ex_dropped_def op_defs)

text \<open>
  The four operations do the same whatever the state of the connection: they commute
  with every change of \<open>channel_open\<close>.
\<close>

lemma operations_ignore_channel:
  "executeStage st (s\<lparr> channel_open := b \<rparr>) = (executeStage st s)\<lparr> channel_open := b \<rparr>"
  "stopExecution (s\<lparr> channel_open := b \<rparr>) = (stopExecution s)\<lparr> channel_open := b \<rparr>"
  "shutdownAll (s\<lparr> channel_open := b \<rparr>) = (shutdownAll s)\<lparr> channel_open := b \<rparr>"
  "handleInputSubmit (s\<lparr> channel_open := b \<rparr>) = (handleInputSubmit s)\<lparr> channel_open := b \<rparr>"
  by (simp_all add: executeStage_def stopExecution_def shutdownAll_def handleInputSubmit_def
      runningIds_def addLog_def setExecutionState_def Let_def)

lemma ex_three_fields:
  "socket ex_three" "isAutoRunning ex_three" "waitingForInput ex_three = Some ''clean-base''"
  "emitted ex_three = [ExecuteStage ''get-scripts'' ''get_scripts.py'']"
  "executionStates ex_three =
     [(''get-scripts'', \<lparr> progress = 0, status = Running \<rparr>),
      (''channel-info'', \<lparr> progress = 100, status = Completed \<rparr>),
      (''clean-base'', \<lparr> progress = 0, status = Running \<rparr>)]"
  by (simp_all add: ex_three_def op_defs)

lemma ex_completed_more:
  "socket ex_completed" "runningIds ex_completed = []"
  "emitted ex_completed = [ExecuteStage ''get-scripts'' ''get_scripts.py'']"
  "length (logs ex_completed) = 2"
  by (simp_all add: ex_completed_def runningIds_def op_defs)

lemma show_nat_2: "show_nat (Suc (Suc 0)) = ''2''"
proof -
  have "show_nat 2 = ''2''" by code_simp
  then show ?thesis by (simp add: numeral_2_eq_2)
qed

lemma run_Nil [simp]: "run [] s = s"
  by (simp add: run_def)

lemma run_Cons [simp]: "run (a # acts) s = run acts (step a s)"
  by (simp add: run_def)

lemma run_append: "run (as @ bs) s = run bs (run as s)"
  by (simp add: run_def)

lemma get_key_foldl_set_key:
  "get_key (foldl (\<lambda>next k. set_key k v next) kvs ks) k' =
     (if k' \<in> set ks then Some v else get_key kvs k')"
  by (induction ks arbitrary: kvs) (auto simp: get_key_set_key)

lemma reachable_run: "reachable s \<Longrightarrow> reachable (run acts s)"
  by (induction acts arbitrary: s) (auto intro: reachable_step)

subsection \<open>Who writes \<open>executionStates\<close>\<close>

lemma pipeline_loop_store [simp]: "executionStates (pipeline_loop stages s) = executionStates s"
  by (induction stages arbitrary: s)
     (auto simp: executeStageAndWait_def executeStage_def Let_def addLog_def halted_def)

lemma resume_store [simp]: "executionStates (resume w d s) = executionStates s"
  by (simp add: resume_def halted_def addLog_def)

lemma handleComplete_store [simp]: "executionStates (handleComplete w d s) = executionStates s"
  by (simp add: handleComplete_def)

lemma foldl_handleComplete_store [simp]:
  "executionStates (foldl (\<lambda>s' w. handleComplete w d s') s ws) = executionStates s"
  by (induction ws arbitrary: s) auto

lemma foldl_resume_store [simp]:
  "executionStates (foldl (\<lambda>s' w. resume w d s') s ws) = executionStates s"
  by (induction ws arbitrary: s) auto

lemma dispatch_complete_store:
  "executionStates (dispatch_complete d s) =
     set_key (c_stage_id d) \<lparr> progress = 100, status = complete_status (c_status d) \<rparr>
       (executionStates s)"
  by (simp add: dispatch_complete_def Let_def on_execution_complete_def addLog_def
      setExecutionState_def)

lemma output_progress:
  "progress_of k' (on_script_output k out ty s) =
     (if k' = k then min (progress_of k s + 5) 95 else progress_of k' s)"
  by (auto simp: on_script_output_def updateProgress_def Let_def addLog_def
      setExecutionState_def progress_of_def get_key_set_key split: option.splits)

lemma outputs_progress:
  "list_all (is_output_for k) es \<Longrightarrow> es \<noteq> [] \<Longrightarrow>
   progress_of k (run (map Inbound es) s) = min (progress_of k s + 5 * int (length es)) 95"
proof (induction es arbitrary: s)
  case Nil
  then show ?case by simp
next
  case (Cons e es)
  from Cons.prems obtain out ty where e: "e = ScriptOutput k out ty"
    by (cases e) auto
  show ?case
  proof (cases "es = []")
    case True
    then show ?thesis by (simp add: e output_progress)
  next
    case False
    with Cons have "progress_of k (run (map Inbound es) (handle_event e s)) =
      min (progress_of k (handle_event e s) + 5 * int (length es)) 95" by simp
    then show ?thesis using False by (simp add: e output_progress)
  qed
qed

lemma step_progress_above_cap:
  assumes "95 < progress_of k (step a s)" and "progress_of k s \<le> 95"
  shows "\<exists>d. a = Inbound (ExecutionComplete d) \<and> c_stage_id d = k"
proof (cases a)
  case (Inbound e)
  show ?thesis
  proof (cases e)
    case (ExecutionComplete d)
    with assms Inbound show ?thesis
      by (auto simp: progress_of_def dispatch_complete_store get_key_set_key split: if_splits)
  next
    case (ScriptOutput k' out ty)
    with assms Inbound output_progress[of k k' out ty s] show ?thesis
      by (auto split: if_splits)
  qed (use assms Inbound in \<open>auto simp: progress_of_def on_connected_def on_request_input_def
        on_execution_started_def on_execution_error_def on_input_sent_def addLog_def
        setExecutionState_def get_key_set_key split: if_splits\<close>)
next
  case (User c)
  with assms show ?thesis
    by (cases c)
      (auto simp: progress_of_def executeStage_def addLog_def startFullPipeline_def
        startFullPipelineOn_def shutdownAll_def Let_def get_key_foldl_set_key
        stopExecution_def setExecutionState_def get_key_set_key clearLogs_def
        handleInputSubmit_def get_key_def[of "[]"] split: if_splits)
next
  case (Link b)
  with assms show ?thesis by (simp add: progress_of_def)
qed

lemma ex_mounted_fields:
  "socket ex_mounted" "progress_of k ex_mounted = 0" "listeners ex_mounted = []"
  "\<not> isAutoRunning ex_mounted" "emitted ex_mounted = []" "executionStates ex_mounted = []"
  by (simp_all add: ex_mounted_def init_def progress_of_def get_key_def)

lemma ex_capped_progress: "progress_of ''get-scripts'' ex_capped = 95"
proof -
  let ?s = "step (User Mount) init"
  let ?es = "replicate 19 (ScriptOutput ''get-scripts'' ''line'' None)"
  have z: "progress_of ''get-scripts'' ?s = 0"
    by (simp add: progress_of_def init_def get_key_def)
  have "progress_of ''get-scripts'' (run (map Inbound ?es) ?s) =
    min (progress_of ''get-scripts'' ?s + 5 * int (length ?es)) 95"
    by (rule outputs_progress) (simp_all add: list_all_length)
  with z have "progress_of ''get-scripts'' (run (map Inbound ?es) ?s) = 95"
    by simp
  then show ?thesis
    by (simp add: ex_capped_def)
qed

subsection \<open>Messages that resolve no promise\<close>

lemma control_eq_refl [simp]: "control_eq s s"
  by (simp add: control_eq_def)

lemma control_eq_trans: "control_eq s s' \<Longrightarrow> control_eq s' s'' \<Longrightarrow> control_eq s s''"
  by (simp add: control_eq_def)

lemma foldl_handleComplete_none:
  "fired d ws = [] \<Longrightarrow> foldl (\<lambda>s' w. handleComplete w d s') s ws = s"
  by (induction ws arbitrary: s) (auto simp: fired_def handleComplete_def split: if_splits)

lemma listeners_on_execution_complete [simp]:
  "listeners (on_execution_complete d s) = listeners s"
  by (simp add: on_execution_complete_def addLog_def setExecutionState_def)

lemma dispatch_quiet:
  "fired d (listeners s) = [] \<Longrightarrow> dispatch_complete d s = on_execution_complete d s"
  by (simp add: dispatch_complete_def Let_def foldl_handleComplete_none)

lemma event_control:
  assumes "\<And>d. e = ExecutionComplete d \<Longrightarrow> fired d (listeners s) = []"
  shows "control_eq s (handle_event e s)"
  using assms
  by (cases e)
    (simp_all add: dispatch_quiet control_eq_def on_connected_def on_script_output_def
      on_request_input_def on_execution_started_def on_execution_complete_def
      on_execution_error_def on_input_sent_def addLog_def setExecutionState_def
      updateProgress_def Let_def)

lemma event_store_other:
  "ev_stage e \<noteq> Some k \<Longrightarrow>
   get_key (executionStates (handle_event e s)) k = get_key (executionStates s) k"
  by (cases e)
    (simp_all add: dispatch_complete_store on_connected_def on_script_output_def
      on_request_input_def on_execution_started_def
      on_execution_error_def on_input_sent_def addLog_def setExecutionState_def
      updateProgress_def Let_def get_key_set_key)

lemma events_store_other:
  "list_all (\<lambda>e. ev_stage e \<noteq> Some k) es \<Longrightarrow>
   get_key (executionStates (run (map Inbound es) s)) k = get_key (executionStates s) k"
  by (induction es arbitrary: s) (simp_all add: event_store_other)

lemma fired_single:
  "fired d [w] = (if c_stage_id d = sid (w_stage w) then [w] else [])"
  by (simp add: fired_def)

lemma events_control_single:
  "listeners s = [w] \<Longrightarrow> list_all (\<lambda>e. \<not> is_complete_for (sid (w_stage w)) e) es \<Longrightarrow>
   control_eq s (run (map Inbound es) s)"
proof (induction es arbitrary: s)
  case Nil
  then show ?case by simp
next
  case (Cons e es)
  have c: "control_eq s (handle_event e s)"
  proof (rule event_control)
    fix d assume "e = ExecutionComplete d"
    with Cons.prems show "fired d (listeners s) = []" by (simp add: fired_single)
  qed
  then have "listeners (handle_event e s) = [w]"
    using Cons.prems(1) by (simp add: control_eq_def)
  with Cons have "control_eq (handle_event e s) (run (map Inbound es) (handle_event e s))"
    by simp
  with c show ?case by (auto intro: control_eq_trans)
qed

lemma dispatch_single:
  assumes "listeners s = [w]" and "c_stage_id d = sid (w_stage w)"
  shows "dispatch_complete d s =
    resume w d ((on_execution_complete d s)
      \<lparr> listeners := [], resolutions := resolutions (on_execution_complete d s) @ [(w_id w, d)] \<rparr>)"
  using assms by (simp add: dispatch_complete_def Let_def fired_single handleComplete_def)

lemma pipeline_loop_connected:
  "socket s \<Longrightarrow> pipeline_loop (st # rest) s =
     s\<lparr> selectedStage := Some (sid st), next_id := Suc (next_id s),
        listeners := listeners s @ [\<lparr> w_id = next_id s, w_stage = st, w_rest = rest \<rparr>],
        emitted := emitted s @ [ExecuteStage (sid st) (sfile st)] \<rparr>"
  by (simp add: executeStageAndWait_def executeStage_def Let_def)

subsection \<open>Listeners and promises\<close>

lemma observers_ok_cong:
  "listeners s' = listeners s \<Longrightarrow> resolutions s' = resolutions s \<Longrightarrow> next_id s' = next_id s \<Longrightarrow>
   observers_ok s' = observers_ok s"
  by (simp add: observers_ok_def)

lemma observers_ok_control: "control_eq s s' \<Longrightarrow> observers_ok s' = observers_ok s"
  by (rule observers_ok_cong) (simp_all add: control_eq_def)

lemma foldl_handleComplete_eq:
  "foldl (\<lambda>s' w. handleComplete w d s') s ws =
     s\<lparr> listeners := filter (\<lambda>v. w_id v \<notin> w_id ` set (fired d ws)) (listeners s),
        resolutions := resolutions s @ map (\<lambda>w. (w_id w, d)) (fired d ws) \<rparr>"
proof (induction ws arbitrary: s)
  case Nil
  then show ?case by (simp add: fired_def)
next
  case (Cons w ws)
  show ?case
    by (simp add: Cons.IH) (auto simp: handleComplete_def fired_def intro: filter_cong)
qed

lemma filter_fired_ids:
  assumes "distinct (map w_id ls)"
  shows "filter (\<lambda>v. w_id v \<notin> w_id ` set (fired d ls)) ls =
         filter (\<lambda>w. c_stage_id d \<noteq> sid (w_stage w)) ls"
proof (rule filter_cong[OF refl])
  fix v assume v: "v \<in> set ls"
  from assms have inj: "inj_on w_id (set ls)" by (simp add: distinct_map)
  show "(w_id v \<notin> w_id ` set (fired d ls)) = (c_stage_id d \<noteq> sid (w_stage v))"
  proof
    assume "w_id v \<notin> w_id ` set (fired d ls)"
    with v show "c_stage_id d \<noteq> sid (w_stage v)" by (auto simp: fired_def)
  next
    assume n: "c_stage_id d \<noteq> sid (w_stage v)"
    show "w_id v \<notin> w_id ` set (fired d ls)"
    proof
      assume "w_id v \<in> w_id ` set (fired d ls)"
      then obtain u where u: "u \<in> set ls" "c_stage_id d = sid (w_stage u)" "w_id v = w_id u"
        by (auto simp: fired_def)
      with inj v have "u = v" by (auto dest: inj_onD)
      with u n show False by simp
    qed
  qed
qed

lemma after_listeners_eq:
  "distinct (map w_id (listeners s)) \<Longrightarrow>
   after_listeners d s =
     s\<lparr> listeners := filter (\<lambda>w. c_stage_id d \<noteq> sid (w_stage w)) (listeners s),
        resolutions := resolutions s @ map (\<lambda>w. (w_id w, d)) (fired d (listeners s)) \<rparr>"
  by (simp add: after_listeners_def foldl_handleComplete_eq filter_fired_ids)

lemma observers_ok_after_listeners:
  assumes "observers_ok s"
  shows "observers_ok (after_listeners d s)"
proof -
  let ?ls = "listeners s" and ?rs = "resolutions s"
  let ?keep = "filter (\<lambda>w. c_stage_id d \<noteq> sid (w_stage w)) ?ls"
  let ?new = "map (\<lambda>w. (w_id w, d)) (fired d ?ls)"
  from assms have d: "distinct (map w_id ?ls)" and dr: "distinct (map fst ?rs)"
    and bl: "\<forall>w\<in>set ?ls. w_id w < next_id s" and br: "\<forall>r\<in>set ?rs. fst r < next_id s"
    and disj: "\<forall>w\<in>set ?ls. w_id w \<notin> fst ` set ?rs"
    by (simp_all add: observers_ok_def list_all_iff)
  have inj: "inj_on w_id (set ?ls)" using d by (simp add: distinct_map)
  have m: "map fst (?rs @ ?new) = map fst ?rs @ map w_id (fired d ?ls)"
    by (simp add: comp_def)
  have 1: "distinct (map w_id ?keep)"
    using d by (rule distinct_map_filter)
  have "distinct (map w_id (fired d ?ls))"
    unfolding fired_def using d by (rule distinct_map_filter)
  moreover have "set (map fst ?rs) \<inter> set (map w_id (fired d ?ls)) = {}"
  proof -
    have "x \<notin> set (map fst ?rs)" if "x \<in> set (map w_id (fired d ?ls))" for x
    proof -
      from that obtain w where "w \<in> set ?ls" "x = w_id w" by (auto simp: fired_def)
      with disj show ?thesis by simp
    qed
    then show ?thesis by blast
  qed
  ultimately have 2: "distinct (map fst (?rs @ ?new))"
    unfolding m using dr by simp
  have 3: "list_all (\<lambda>w. w_id w < next_id s) ?keep"
    using bl by (simp add: list_all_iff)
  have 4: "list_all (\<lambda>r. fst r < next_id s) (?rs @ ?new)"
    using bl br by (auto simp: list_all_iff fired_def)
  have 5: "list_all (\<lambda>w. w_id w \<notin> set (map fst (?rs @ ?new))) ?keep"
  proof -
    have "w_id w \<notin> set (map fst (?rs @ ?new))" if w: "w \<in> set ?keep" for w
    proof
      assume "w_id w \<in> set (map fst (?rs @ ?new))"
      then consider "w_id w \<in> fst ` set ?rs" | "w_id w \<in> w_id ` set (fired d ?ls)"
        unfolding m by auto
      then show False
      proof cases
        case 1
        with disj w show False by auto
      next
        case 2
        then obtain u where u: "u \<in> set ?ls" "c_stage_id d = sid (w_stage u)" "w_id w = w_id u"
          by (auto simp: fired_def)
        with inj w have "u = w" by (auto dest: inj_onD)
        with u w show False by simp
      qed
    qed
    then show ?thesis by (simp add: list_all_iff)
  qed
  from 1 2 3 4 5 show ?thesis
    unfolding after_listeners_eq[OF d] observers_ok_def by simp
qed

lemma pipeline_loop_offline:
  "\<not> socket s \<Longrightarrow> pipeline_loop (st # rest) s =
     s\<lparr> selectedStage := Some (sid st), next_id := Suc (next_id s),
        logs := logs s @ [\<lparr> message = ''Not connected to backend'', type = ''error'' \<rparr>,
                          \<lparr> message = ''Pipeline halted at '' @ sname st, type = ''error'' \<rparr>],
        resolutions := resolutions s @ [(next_id s, \<lparr> c_stage_id = sid st, c_status = ''error'' \<rparr>)],
        isAutoRunning := False \<rparr>"
  by (simp add: executeStageAndWait_def Let_def addLog_def halted_def)

lemma observers_ok_pipeline_loop:
  "observers_ok s \<Longrightarrow> observers_ok (pipeline_loop stages s)"
proof (cases stages)
  case Nil
  assume "observers_ok s"
  then show ?thesis using Nil by (simp add: observers_ok_def addLog_def)
next
  case (Cons st rest)
  assume ok: "observers_ok s"
  show ?thesis
  proof (cases "socket s")
    case True
    with ok show ?thesis
      unfolding Cons by (auto simp: pipeline_loop_connected observers_ok_def list_all_iff
          simp del: pipeline_loop.simps)
  next
    case False
    with ok show ?thesis
      unfolding Cons by (auto simp: pipeline_loop_offline observers_ok_def list_all_iff
          simp del: pipeline_loop.simps)
  qed
qed

lemma observers_ok_resume: "observers_ok s \<Longrightarrow> observers_ok (resume w d s)"
  by (auto simp: resume_def observers_ok_pipeline_loop)
     (simp add: halted_def addLog_def observers_ok_def)

lemma observers_ok_resumes:
  "observers_ok s \<Longrightarrow> observers_ok (foldl (\<lambda>s' w. resume w d s') s ws)"
  by (induction ws arbitrary: s) (simp_all add: observers_ok_resume)

lemma dispatch_complete_alt:
  "dispatch_complete d s =
     foldl (\<lambda>s' w. resume w d s') (after_listeners d (on_execution_complete d s))
       (fired d (listeners s))"
  by (simp add: dispatch_complete_def Let_def after_listeners_def)

lemma observers_ok_event: "observers_ok s \<Longrightarrow> observers_ok (handle_event e s)"
proof (cases e)
  case (ExecutionComplete d)
  assume ok: "observers_ok s"
  have "observers_ok (on_execution_complete d s)"
    using ok by (simp add: observers_ok_def on_execution_complete_def addLog_def
        setExecutionState_def)
  then show ?thesis
    by (simp add: ExecutionComplete dispatch_complete_alt observers_ok_resumes
        observers_ok_after_listeners)
qed (simp_all add: observers_ok_def on_connected_def on_script_output_def
      on_request_input_def on_execution_started_def
      on_execution_error_def on_input_sent_def addLog_def setExecutionState_def
      updateProgress_def Let_def)

lemma observers_ok_command: "observers_ok s \<Longrightarrow> observers_ok (do_command c s)"
proof (cases c)
  case StartAll
  assume ok: "observers_ok s"
  have "observers_ok (addLog ''Starting full pipeline...'' ''system'' (s\<lparr> isAutoRunning := True \<rparr>))"
    using ok by (simp add: observers_ok_def addLog_def)
  then have "observers_ok (pipeline_loop pipelineStages
      (addLog ''Starting full pipeline...'' ''system'' (s\<lparr> isAutoRunning := True \<rparr>)))"
    by (rule observers_ok_pipeline_loop)
  with ok show ?thesis
    by (simp add: StartAll startFullPipeline_def startFullPipelineOn_def)
      (simp add: observers_ok_def addLog_def)
qed (simp_all add: observers_ok_def executeStage_def addLog_def shutdownAll_def Let_def
      stopExecution_def setExecutionState_def clearLogs_def handleInputSubmit_def)

lemma reachable_observers_ok: "reachable s \<Longrightarrow> observers_ok s"
proof (induction rule: reachable.induct)
  case reachable_init
  show ?case by (simp add: observers_ok_def init_def)
next
  case (reachable_step s a)
  show ?case
  proof (cases a)
    case (Inbound e)
    with reachable_step.IH show ?thesis by (simp add: observers_ok_event)
  next
    case (User c)
    with reachable_step.IH show ?thesis by (simp add: observers_ok_command)
  next
    case (Link b)
    with reachable_step.IH show ?thesis by (simp add: observers_ok_def)
  qed
qed


lemma pipeline_loop_cases:
  obtains (finished) "stages = []"
      "pipeline_loop stages s =
         (addLog ''Pipeline completed successfully!'' ''success'' s)\<lparr> isAutoRunning := False \<rparr>"
    | (sent) st rest where "stages = st # rest" "socket s"
      "pipeline_loop stages s =
         s\<lparr> selectedStage := Some (sid st), next_id := Suc (next_id s),
            listeners := listeners s @ [\<lparr> w_id = next_id s, w_stage = st, w_rest = rest \<rparr>],
            emitted := emitted s @ [ExecuteStage (sid st) (sfile st)] \<rparr>"
    | (offline) st rest where "stages = st # rest" "\<not> socket s"
      "pipeline_loop stages s =
         s\<lparr> selectedStage := Some (sid st), next_id := Suc (next_id s),
            logs := logs s @ [\<lparr> message = ''Not connected to backend'', type = ''error'' \<rparr>,
                    \<lparr> message = ''Pipeline halted at '' @ sname st, type = ''error'' \<rparr>],
            resolutions := resolutions s @
              [(next_id s, \<lparr> c_stage_id = sid st, c_status = ''error'' \<rparr>)],
            isAutoRunning := False \<rparr>"
proof (cases stages)
  case Nil
  then show ?thesis using finished by simp
next
  case (Cons st rest)
  then show ?thesis
    using sent[of st rest] offline[of st rest] pipeline_loop_connected[of s st rest]
      pipeline_loop_offline[of s st rest]
    by (cases "socket s") simp_all
qed

lemma pipeline_loop_grows:
  "set (listeners s) \<subseteq> set (listeners (pipeline_loop stages s))"
  "set (resolutions s) \<subseteq> set (resolutions (pipeline_loop stages s))"
  "next_id s \<le> next_id (pipeline_loop stages s)"
  by (cases stages s rule: pipeline_loop_cases; simp add: addLog_def; blast)+

lemma pipeline_loop_fresh:
  "w \<notin> set (listeners s) \<Longrightarrow> w_id w < next_id s \<Longrightarrow>
   w \<notin> set (listeners (pipeline_loop stages s))"
  by (cases stages s rule: pipeline_loop_cases) (auto simp: addLog_def)

lemma resume_grows:
  "set (listeners s) \<subseteq> set (listeners (resume v d s))"
  "set (resolutions s) \<subseteq> set (resolutions (resume v d s))"
  "next_id s \<le> next_id (resume v d s)"
  using pipeline_loop_grows[of s "w_rest v"]
  by (simp_all add: resume_def halted_def addLog_def)

lemma resume_fresh:
  "w \<notin> set (listeners s) \<Longrightarrow> w_id w < next_id s \<Longrightarrow> w \<notin> set (listeners (resume v d s))"
  by (simp add: resume_def halted_def addLog_def pipeline_loop_fresh)

lemma resumes_grow:
  "set (listeners s) \<subseteq> set (listeners (foldl (\<lambda>s' v. resume v d s') s vs))"
  "set (resolutions s) \<subseteq> set (resolutions (foldl (\<lambda>s' v. resume v d s') s vs))"
proof (induction vs arbitrary: s)
  case Nil
  { case 1 show ?case by simp }
  { case 2 show ?case by simp }
next
  case (Cons v vs)
  { case 1 show ?case using Cons.IH(1)[of "resume v d s"] resume_grows(1)[of s v d] by auto }
  { case 2 show ?case using Cons.IH(2)[of "resume v d s"] resume_grows(2)[of s v d] by auto }
qed

lemma resumes_fresh:
  "w \<notin> set (listeners s) \<Longrightarrow> w_id w < next_id s \<Longrightarrow>
   w \<notin> set (listeners (foldl (\<lambda>s' v. resume v d s') s vs))"
proof (induction vs arbitrary: s)
  case Nil
  then show ?case by simp
next
  case (Cons v vs)
  have "w \<notin> set (listeners (resume v d s))" using Cons.prems by (rule resume_fresh)
  moreover have "w_id w < next_id (resume v d s)"
    using Cons.prems(2) resume_grows(3)[of s v d] by simp
  ultimately show ?case using Cons.IH by simp
qed

lemma count_one:
  "distinct (map fst rs) \<Longrightarrow> (i, d) \<in> set rs \<Longrightarrow> length (filter (\<lambda>r. fst r = i) rs) = 1"
proof (induction rs)
  case Nil
  then show ?case by simp
next
  case (Cons r rs)
  show ?case
  proof (cases "fst r = i")
    case True
    with Cons.prems(1) have "\<forall>x\<in>set rs. fst x \<noteq> i" by (auto simp: image_iff)
    then have "filter (\<lambda>r. fst r = i) rs = []" by (simp add: filter_empty_conv)
    with True show ?thesis by simp
  next
    case False
    with Cons show ?thesis by auto
  qed
qed

lemma event_resolutions_grow: "set (resolutions s) \<subseteq> set (resolutions (handle_event e s))"
proof (cases e)
  case (ExecutionComplete d)
  have "set (resolutions s) \<subseteq> set (resolutions (after_listeners d (on_execution_complete d s)))"
    by (simp add: after_listeners_def foldl_handleComplete_eq on_execution_complete_def
        addLog_def setExecutionState_def)
  with resumes_grow(2) show ?thesis
    unfolding ExecutionComplete handle_event.simps dispatch_complete_alt by blast
qed (simp_all add: on_connected_def on_script_output_def
      on_request_input_def on_execution_started_def
      on_execution_error_def on_input_sent_def addLog_def setExecutionState_def
      updateProgress_def Let_def)

lemma command_grows:
  "set (listeners s) \<subseteq> set (listeners (do_command c s))"
  "set (resolutions s) \<subseteq> set (resolutions (do_command c s))"
proof -
  let ?s = "addLog ''Starting full pipeline...'' ''system'' (s\<lparr> isAutoRunning := True \<rparr>)"
  have l: "listeners ?s = listeners s" and r: "resolutions ?s = resolutions s"
    by (simp_all add: addLog_def)
  show "set (listeners s) \<subseteq> set (listeners (do_command c s))"
    using pipeline_loop_grows(1)[of ?s pipelineStages]
    by (cases c) (simp_all add: l startFullPipeline_def startFullPipelineOn_def
      executeStage_def addLog_def shutdownAll_def Let_def
      stopExecution_def setExecutionState_def clearLogs_def handleInputSubmit_def)
  show "set (resolutions s) \<subseteq> set (resolutions (do_command c s))"
    using pipeline_loop_grows(2)[of ?s pipelineStages]
    by (cases c) (simp_all add: r startFullPipeline_def startFullPipelineOn_def
      executeStage_def addLog_def shutdownAll_def Let_def
      stopExecution_def setExecutionState_def clearLogs_def handleInputSubmit_def)
qed

lemma run_resolutions_grow: "set (resolutions s) \<subseteq> set (resolutions (run acts s))"
proof (induction acts arbitrary: s)
  case Nil
  show ?case by simp
next
  case (Cons a acts)
  have "set (resolutions s) \<subseteq> set (resolutions (step a s))"
    by (cases a) (simp_all add: event_resolutions_grow command_grows)
  with Cons.IH[of "step a s"] show ?case by auto
qed


lemma attached_unresolved:
  "observers_ok s \<Longrightarrow> w \<in> set (listeners s) \<Longrightarrow> w_id w \<notin> fst ` set (resolutions s)"
  by (simp add: observers_ok_def list_all_iff)

lemma event_keeps_listener:
  assumes ok: "observers_ok s" and w: "w \<in> set (listeners s)"
    and n: "\<not> is_complete_for (sid (w_stage w)) e"
  shows "w \<in> set (listeners (handle_event e s))"
proof (cases e)
  case (ExecutionComplete d)
  let ?s1 = "on_execution_complete d s"
  from ok have dist: "distinct (map w_id (listeners ?s1))" by (simp add: observers_ok_def)
  from n ExecutionComplete have "c_stage_id d \<noteq> sid (w_stage w)" by simp
  with w have "w \<in> set (listeners (after_listeners d ?s1))"
    by (simp add: after_listeners_eq[OF dist])
  with resumes_grow(1) show ?thesis
    unfolding ExecutionComplete handle_event.simps dispatch_complete_alt by blast
qed (use w in \<open>simp_all add: on_connected_def on_script_output_def
      on_request_input_def on_execution_started_def
      on_execution_error_def on_input_sent_def addLog_def setExecutionState_def
      updateProgress_def Let_def\<close>)

lemma complete_detaches_and_resolves:
  assumes ok: "observers_ok s" and w: "w \<in> set (listeners s)"
    and m: "c_stage_id d = sid (w_stage w)"
  shows "w \<notin> set (listeners (dispatch_complete d s))"
    and "(w_id w, d) \<in> set (resolutions (dispatch_complete d s))"
proof -
  let ?s1 = "on_execution_complete d s"
  let ?s2 = "after_listeners d ?s1"
  from ok have dist: "distinct (map w_id (listeners ?s1))" by (simp add: observers_ok_def)
  have l1: "listeners ?s1 = listeners s" by simp
  have n1: "next_id ?s1 = next_id s"
    by (simp add: on_execution_complete_def addLog_def setExecutionState_def)
  have gone: "w \<notin> set (listeners ?s2)"
    using m by (simp add: after_listeners_eq[OF dist])
  have low: "w_id w < next_id ?s2"
    using ok w by (simp add: after_listeners_eq[OF dist] n1 observers_ok_def list_all_iff)
  from gone low show "w \<notin> set (listeners (dispatch_complete d s))"
    unfolding dispatch_complete_alt by (rule resumes_fresh)
  have "(w_id w, d) \<in> set (resolutions ?s2)"
    using w m by (simp add: after_listeners_eq[OF dist] fired_def)
  with resumes_grow(2) show "(w_id w, d) \<in> set (resolutions (dispatch_complete d s))"
    unfolding dispatch_complete_alt by blast
qed

subsection \<open>The entries of \<open>executionStates\<close> in reachable states\<close>

lemma list_all_set_key:
  "list_all P kvs \<Longrightarrow> P (k, v) \<Longrightarrow> list_all P (set_key k v kvs)"
  by (induction kvs) auto

lemma list_all_foldl_set_key:
  "list_all P kvs \<Longrightarrow> P' v \<Longrightarrow> (\<And>k. P (k, v)) \<Longrightarrow>
   list_all P (foldl (\<lambda>next k. set_key k v next) kvs ks)"
  by (induction ks arbitrary: kvs) (auto simp: list_all_set_key)

lemma store_ok_get:
  "store_ok s \<Longrightarrow> get_key (executionStates s) k = Some v \<Longrightarrow> entry_ok v"
  by (auto simp: store_ok_def get_key_def list_all_iff dest!: map_of_SomeD)

lemma store_ok_set:
  "store_ok s \<Longrightarrow> entry_ok v \<Longrightarrow> executionStates s' = set_key k v (executionStates s) \<Longrightarrow>
   store_ok s'"
  by (simp add: store_ok_def list_all_set_key)

lemma store_ok_same:
  "store_ok s \<Longrightarrow> executionStates s' = executionStates s \<Longrightarrow> store_ok s'"
  by (simp add: store_ok_def)

lemma store_ok_output:
  assumes "store_ok s" shows "store_ok (on_script_output k out ty s)"
proof (cases "get_key (executionStates s) k")
  case None
  then show ?thesis using assms
    by (intro store_ok_set[OF assms, where k = k and v = "\<lparr> progress = 5, status = Running \<rparr>"])
       (simp_all add: entry_ok_def on_script_output_def updateProgress_def addLog_def
         setExecutionState_def)
next
  case (Some c)
  with assms have c: "entry_ok c" by (rule store_ok_get)
  show ?thesis
    by (rule store_ok_set[OF assms, where k = k
          and v = "\<lparr> progress = min (progress c + 5) 95, status = Running \<rparr>"])
       (use c in \<open>auto simp: entry_ok_def on_script_output_def updateProgress_def addLog_def
         setExecutionState_def Some\<close>)
qed

lemma store_ok_step: assumes ok: "store_ok s" shows "store_ok (step a s)"
proof (cases a)
  case (Inbound e)
  show ?thesis
  proof (cases e)
    case (ScriptOutput k out ty)
    with Inbound ok show ?thesis by (simp add: store_ok_output)
  next
    case (ExecutionComplete d)
    have "store_ok (dispatch_complete d s)"
      by (rule store_ok_set[OF ok _ dispatch_complete_store])
         (simp add: entry_ok_def complete_status_def)
    with Inbound ExecutionComplete show ?thesis by simp
  next
    case (ExecutionStarted k)
    have "store_ok (on_execution_started k s)"
      by (rule store_ok_set[OF ok, where k = k and v = "\<lparr> progress = 0, status = Running \<rparr>"])
         (simp_all add: entry_ok_def on_execution_started_def addLog_def setExecutionState_def)
    with Inbound ExecutionStarted show ?thesis by simp
  next
    case (ExecutionError k err)
    have "store_ok (on_execution_error k err s)"
      by (rule store_ok_set[OF ok, where k = k and v = "\<lparr> progress = 0, status = Error \<rparr>"])
         (simp_all add: entry_ok_def on_execution_error_def addLog_def setExecutionState_def)
    with Inbound ExecutionError show ?thesis by simp
  qed (use ok Inbound in \<open>simp_all add: store_ok_def on_connected_def on_request_input_def
        on_input_sent_def addLog_def\<close>)
next
  case (User c)
  show ?thesis
  proof (cases c)
    case ShutdownAll
    have "list_all (\<lambda>kv. entry_ok (snd kv))
        (foldl (\<lambda>next k. set_key k \<lparr> progress = 0, status = Stopped \<rparr> next)
           (executionStates s) (runningIds s))"
      using ok by (intro list_all_foldl_set_key[where P' = entry_ok])
        (simp_all add: store_ok_def entry_ok_def)
    with ok User ShutdownAll show ?thesis
      by (simp add: shutdownAll_def Let_def store_ok_def addLog_def)
  next
    case Stop
    have "store_ok (setExecutionState k \<lparr> progress = 0, status = Stopped \<rparr> s')"
      if "store_ok s'" for s' k
      using that by (rule store_ok_set) (simp_all add: entry_ok_def setExecutionState_def)
    with ok User Stop show ?thesis
      by (simp add: stopExecution_def Let_def)
         (simp add: store_ok_def addLog_def setExecutionState_def)
  qed (use ok User in \<open>simp_all add: store_ok_def executeStage_def addLog_def
        startFullPipeline_def startFullPipelineOn_def clearLogs_def handleInputSubmit_def\<close>)
next
  case (Link b)
  with ok show ?thesis by (simp add: store_ok_def)
qed

lemma reachable_store_ok: "reachable s \<Longrightarrow> store_ok s"
  by (induction rule: reachable.induct) (simp_all add: store_ok_def init_def store_ok_step[unfolded store_ok_def])

section \<open>The guard of the full pipeline run\<close>

text \<open>
  Claim C8. \<open>startFullPipeline\<close> called with a socket while \<open>isAutoRunning\<close> is true
  returns at once: the whole state (execution states, logs, pending input, selection,
  guard, and the messages emitted on the socket) is the one before the call.
\<close>

theorem startFullPipeline_guarded:
  "socket s \<Longrightarrow> isAutoRunning s \<Longrightarrow> startFullPipeline s = s"
  by (simp add: startFullPipeline_def startFullPipelineOn_def)

theorem startFullPipeline_guarded_witness:
  "socket ex_auto \<and> isAutoRunning ex_auto \<and> startFullPipeline ex_auto = ex_auto"
  using startFullPipeline_guarded [of ex_auto] by (simp add: ex_auto_fields)

section \<open>Submitting input\<close>

text \<open>
  Claim C7. \<open>handleInputSubmit\<close> with a text that is empty or consists of white space
  only, or with no pending input request, changes nothing: no \<open>send_input\<close> message is
  emitted and \<open>waitingForInput\<close> keeps its value.
\<close>

theorem handleInputSubmit_noop:
  assumes "(\<forall>c\<in>set (currentInput s). is_space c) \<or> waitingForInput s = None"
  shows "handleInputSubmit s = s
    \<and> emitted (handleInputSubmit s) = emitted s
    \<and> waitingForInput (handleInputSubmit s) = waitingForInput s"
  using assms by (auto simp: handleInputSubmit_def trim_empty_iff)

theorem handleInputSubmit_noop_witness:
  "currentInput ex_prompt = [32, 32] \<and> trim (currentInput ex_prompt) = []
   \<and> waitingForInput ex_prompt = Some ''get-scripts''
   \<and> handleInputSubmit ex_prompt = ex_prompt
   \<and> emitted (handleInputSubmit ex_prompt) = [ExecuteStage ''get-scripts'' ''get_scripts.py'']
   \<and> waitingForInput (handleInputSubmit ex_prompt) = Some ''get-scripts''"
proof -
  have h: "\<forall>c\<in>set (currentInput ex_prompt). is_space c"
    by (simp add: ex_prompt_fields is_space_def)
  then have "(\<forall>c\<in>set (currentInput ex_prompt). is_space c) \<or> waitingForInput ex_prompt = None"
    by simp
  from handleInputSubmit_noop [OF this] h show ?thesis
    by (simp add: ex_prompt_fields trim_empty_iff)
qed

section \<open>Stopping the selected stage\<close>

text \<open>
  Claim C6. \<open>stopExecution\<close> with a socket and a selected stage emits one \<open>stop_stage\<close>
  message for that stage, empties the log, clears \<open>waitingForInput\<close> and sets the stage
  to \<open>stopped\<close> with progress 0, in the same step and without any inbound message; the
  entries of the other stages are kept.
\<close>

theorem stopExecution_selected:
  assumes "socket s" and "selectedStage s = Some sel" and "sel \<noteq> []"
  shows "emitted (stopExecution s) = emitted s @ [StopStage sel]
    \<and> logs (stopExecution s) = []
    \<and> waitingForInput (stopExecution s) = None
    \<and> get_key (executionStates (stopExecution s)) sel = Some \<lparr> progress = 0, status = Stopped \<rparr>
    \<and> (\<forall>k. k \<noteq> sel \<longrightarrow>
          get_key (executionStates (stopExecution s)) k = get_key (executionStates s) k)"
  using assms
  by (simp add: stopExecution_def Let_def addLog_def setExecutionState_def get_key_set_key)

theorem stopExecution_selected_witness:
  "socket ex_prompt \<and> selectedStage ex_prompt = Some ''get-scripts'' \<and> logs ex_prompt \<noteq> []
   \<and> waitingForInput ex_prompt \<noteq> None
   \<and> emitted (stopExecution ex_prompt) =
       [ExecuteStage ''get-scripts'' ''get_scripts.py'', StopStage ''get-scripts'']
   \<and> logs (stopExecution ex_prompt) = []
   \<and> waitingForInput (stopExecution ex_prompt) = None
   \<and> get_key (executionStates (stopExecution ex_prompt)) ''get-scripts'' =
       Some \<lparr> progress = 0, status = Stopped \<rparr>"
proof -
  have ne: "logs ex_prompt \<noteq> []" using ex_prompt_fields(6) by auto
  from stopExecution_selected [of ex_prompt "''get-scripts''"] ne show ?thesis
    by (simp add: ex_prompt_fields)
qed

section \<open>Output messages\<close>

text \<open>
  Claim C10. A \<open>script_output\<close> message for a stage sets the status of that stage to
  \<open>running\<close> whatever its state was (a missing entry is created), with the progress
  \<open>min (p + 5) 95\<close> for the former progress \<open>p\<close> (0 for a missing entry); a stage that was
  \<open>completed\<close> with progress 100 is \<open>running\<close> with progress 95 afterwards.
\<close>

theorem output_sets_running:
  "get_key (executionStates (handle_event (ScriptOutput k out ty) s)) k =
     Some \<lparr> progress =
              min ((case get_key (executionStates s) k of None \<Rightarrow> 0 | Some c \<Rightarrow> progress c) + 5) 95,
            status = Running \<rparr>
   \<and> (get_key (executionStates s) k = Some \<lparr> progress = 100, status = Completed \<rparr> \<longrightarrow>
      get_key (executionStates (handle_event (ScriptOutput k out ty) s)) k =
        Some \<lparr> progress = 95, status = Running \<rparr>)"
  by (auto simp: on_script_output_def updateProgress_def Let_def addLog_def
      setExecutionState_def get_key_set_key split: option.splits)

theorem output_sets_running_witness:
  "get_key (executionStates ex_completed) ''get-scripts'' =
     Some \<lparr> progress = 100, status = Completed \<rparr>
   \<and> get_key (executionStates
        (handle_event (ScriptOutput ''get-scripts'' ''late line'' None) ex_completed))
        ''get-scripts'' = Some \<lparr> progress = 95, status = Running \<rparr>"
  using output_sets_running [of "''get-scripts''" "''late line''" None ex_completed]
  by (simp add: ex_completed_fields)

section \<open>Operations while the backend is not connected\<close>

text \<open>
  Claim C3 at the inputs where the code departs from it. The operations test the state
  variable \<open>socket\<close>, which is \<open>null\<close> only until the mount effect has stored the socket
  object; the state of the connection is never read (\<open>operations_ignore_channel\<close>).
  So with the socket stored and the backend not connected nothing fails locally. In
  \<open>ex_mounted\<close> the backend was never reached: \<open>executeStage\<close> emits \<open>execute_stage\<close> and
  logs nothing. In \<open>ex_dropped\<close> the connection was lost while a stage runs with a prompt
  open and a reply typed: \<open>executeStage\<close>, \<open>stopExecution\<close>, \<open>shutdownAll\<close> and
  \<open>handleInputSubmit\<close> each emit their message, and none of them logs a failure (the
  entry \<open>Not connected to backend\<close> of \<open>executeStage\<close> is never written, \<open>stopExecution\<close>
  empties the log, \<open>shutdownAll\<close> logs its count as usual). Both states are reachable.
\<close>

theorem commands_ignore_the_connection:
  "reachable ex_mounted \<and> socket ex_mounted \<and> \<not> channel_open ex_mounted
   \<and> emitted (executeStage get_scripts ex_mounted) =
       [ExecuteStage ''get-scripts'' ''get_scripts.py'']
   \<and> logs (executeStage get_scripts ex_mounted) = []
   \<and> reachable ex_dropped \<and> socket ex_dropped \<and> \<not> channel_open ex_dropped
   \<and> emitted ex_dropped = [ExecuteStage ''get-scripts'' ''get_scripts.py'']
   \<and> emitted (executeStage get_scripts ex_dropped) =
       [ExecuteStage ''get-scripts'' ''get_scripts.py'',
        ExecuteStage ''get-scripts'' ''get_scripts.py'']
   \<and> logs (executeStage get_scripts ex_dropped) = logs ex_dropped
   \<and> emitted (stopExecution ex_dropped) =
       [ExecuteStage ''get-scripts'' ''get_scripts.py'', StopStage ''get-scripts'']
   \<and> logs (stopExecution ex_dropped) = []
   \<and> emitted (shutdownAll ex_dropped) =
       [ExecuteStage ''get-scripts'' ''get_scripts.py'', StopStage ''get-scripts'']
   \<and> logs (shutdownAll ex_dropped) = logs ex_dropped @
       [\<lparr> message = ''Shutdown requested for 1 stage(s).'', type = ''system'' \<rparr>]
   \<and> emitted (handleInputSubmit ex_dropped) =
       [ExecuteStage ''get-scripts'' ''get_scripts.py'', SendInput ''get-scripts'' [111, 107]]
   \<and> logs (handleInputSubmit ex_dropped) = logs ex_dropped"
proof -
  have r: "reachable ex_mounted" "reachable ex_dropped"
    unfolding ex_mounted_def ex_dropped_def
    by (rule reachable_run, rule reachable_init)+
  have m: "socket ex_mounted" "\<not> channel_open ex_mounted"
    "emitted (executeStage get_scripts ex_mounted) =
       [ExecuteStage ''get-scripts'' ''get_scripts.py'']"
    "logs (executeStage get_scripts ex_mounted) = []"
    by (simp_all add: ex_mounted_def init_def executeStage_def get_scripts_def)
  have e: "emitted (executeStage get_scripts ex_dropped) =
       [ExecuteStage ''get-scripts'' ''get_scripts.py'',
        ExecuteStage ''get-scripts'' ''get_scripts.py'']"
    "logs (executeStage get_scripts ex_dropped) = logs ex_dropped"
    by (simp_all add: executeStage_def ex_dropped_fields get_scripts_def)
  have st: "emitted (stopExecution ex_dropped) =
       [ExecuteStage ''get-scripts'' ''get_scripts.py'', StopStage ''get-scripts'']"
    "logs (stopExecution ex_dropped) = []"
    by (simp_all add: stopExecution_def Let_def addLog_def setExecutionState_def
        ex_dropped_fields)
  have sh: "emitted (shutdownAll ex_dropped) =
       [ExecuteStage ''get-scripts'' ''get_scripts.py'', StopStage ''get-scripts'']"
    "logs (shutdownAll ex_dropped) = logs ex_dropped @
       [\<lparr> message = ''Shutdown requested for 1 stage(s).'', type = ''system'' \<rparr>]"
    by (simp_all add: shutdownAll_def runningIds_def Let_def addLog_def show_nat_1
        ex_dropped_fields)
  have isp: "trim (currentInput ex_dropped) = [111, 107]"
    by (simp add: ex_dropped_fields trim_def is_space_def)
  have su: "emitted (handleInputSubmit ex_dropped) =
       [ExecuteStage ''get-scripts'' ''get_scripts.py'', SendInput ''get-scripts'' [111, 107]]"
    "logs (handleInputSubmit ex_dropped) = logs ex_dropped"
    using isp by (simp_all add: handleInputSubmit_def ex_dropped_fields)
  from r m e st sh su show ?thesis
    by (simp add: ex_dropped_fields)
qed

theorem commands_ignore_the_connection_witness:
  "socket ex_dropped \<and> \<not> channel_open ex_dropped
   \<and> emitted (stopExecution ex_dropped) =
       [ExecuteStage ''get-scripts'' ''get_scripts.py'', StopStage ''get-scripts'']
   \<and> logs (stopExecution ex_dropped) = []"
  using commands_ignore_the_connection by blast

section \<open>Stopping every running stage\<close>

text \<open>
  Claim C5. With a socket and the entries \<open>X\<close> running, \<open>Y\<close> completed, \<open>Z\<close> running,
  \<open>shutdownAll\<close> emits two \<open>stop_stage\<close> messages, for \<open>X\<close> and for \<open>Z\<close>, sets \<open>X\<close> and
  \<open>Z\<close> to \<open>stopped\<close> with progress 0, keeps \<open>Y\<close>, clears \<open>waitingForInput\<close> and
  \<open>isAutoRunning\<close>, and logs the count. With no running stage it appends the one entry
  \<open>No running stages to stop.\<close>, emits nothing and changes nothing else.
\<close>

theorem shutdownAll_running:
  assumes "socket s"
  shows "(distinct [X, Y, Z] \<and> executionStates s =
        [(X, \<lparr> progress = px, status = Running \<rparr>), (Y, \<lparr> progress = 100, status = Completed \<rparr>),
         (Z, \<lparr> progress = pz, status = Running \<rparr>)] \<longrightarrow>
      emitted (shutdownAll s) = emitted s @ [StopStage X, StopStage Z]
      \<and> executionStates (shutdownAll s) =
        [(X, \<lparr> progress = 0, status = Stopped \<rparr>), (Y, \<lparr> progress = 100, status = Completed \<rparr>),
         (Z, \<lparr> progress = 0, status = Stopped \<rparr>)]
      \<and> waitingForInput (shutdownAll s) = None
      \<and> \<not> isAutoRunning (shutdownAll s)
      \<and> logs (shutdownAll s) =
          logs s @ [\<lparr> message = ''Shutdown requested for 2 stage(s).'', type = ''system'' \<rparr>])
    \<and> (runningIds s = [] \<longrightarrow>
      logs (shutdownAll s) =
          logs s @ [\<lparr> message = ''No running stages to stop.'', type = ''system'' \<rparr>]
      \<and> emitted (shutdownAll s) = emitted s
      \<and> shutdownAll s = s\<lparr> logs := logs (shutdownAll s) \<rparr>)"
  using assms
  by (auto simp: shutdownAll_def runningIds_def Let_def addLog_def show_nat_2)

theorem shutdownAll_running_witness:
  "socket ex_three \<and> isAutoRunning ex_three \<and> waitingForInput ex_three = Some ''clean-base''
   \<and> executionStates ex_three =
       [(''get-scripts'', \<lparr> progress = 0, status = Running \<rparr>),
        (''channel-info'', \<lparr> progress = 100, status = Completed \<rparr>),
        (''clean-base'', \<lparr> progress = 0, status = Running \<rparr>)]
   \<and> emitted (shutdownAll ex_three) =
       [ExecuteStage ''get-scripts'' ''get_scripts.py'', StopStage ''get-scripts'',
        StopStage ''clean-base'']
   \<and> executionStates (shutdownAll ex_three) =
       [(''get-scripts'', \<lparr> progress = 0, status = Stopped \<rparr>),
        (''channel-info'', \<lparr> progress = 100, status = Completed \<rparr>),
        (''clean-base'', \<lparr> progress = 0, status = Stopped \<rparr>)]
   \<and> waitingForInput (shutdownAll ex_three) = None
   \<and> \<not> isAutoRunning (shutdownAll ex_three)
   \<and> socket ex_completed \<and> runningIds ex_completed = []
   \<and> length (logs (shutdownAll ex_completed)) = 3
   \<and> last (logs (shutdownAll ex_completed)) =
       \<lparr> message = ''No running stages to stop.'', type = ''system'' \<rparr>
   \<and> emitted (shutdownAll ex_completed) = [ExecuteStage ''get-scripts'' ''get_scripts.py'']"
  using shutdownAll_running [of ex_three "''get-scripts''" "''channel-info''" "''clean-base''" 0 0]
    shutdownAll_running [of ex_completed]
  by (simp add: ex_three_fields ex_completed_more)

section \<open>The progress heuristic\<close>

text \<open>
  Claim C4, as the code has it. A \<open>script_output\<close> message for a stage sets its progress
  to \<open>min (p + 5) 95\<close>, where \<open>p\<close> is the progress before (0 without entry): the result
  never exceeds 95, it is \<open>p + 5\<close> as long as \<open>p\<close> is at most 90, and a non-empty sequence of
  \<open>n\<close> such messages gives \<open>min (p + 5 * n) 95\<close>. No step other than an
  \<open>execution_complete\<close> message for the stage takes its progress from at most 95 to more
  than 95.
\<close>

theorem output_progress_capped:
  "progress_of k (handle_event (ScriptOutput k out ty) s) = min (progress_of k s + 5) 95
   \<and> progress_of k (handle_event (ScriptOutput k out ty) s) \<le> 95
   \<and> (progress_of k s \<le> 90 \<longrightarrow>
        progress_of k (handle_event (ScriptOutput k out ty) s) = progress_of k s + 5)
   \<and> (list_all (is_output_for k) es \<and> es \<noteq> [] \<longrightarrow>
        progress_of k (run (map Inbound es) s) = min (progress_of k s + 5 * int (length es)) 95)
   \<and> (95 < progress_of k (step a s) \<and> progress_of k s \<le> 95 \<longrightarrow>
        (\<exists>d. a = Inbound (ExecutionComplete d) \<and> c_stage_id d = k))"
proof -
  have one: "progress_of k (handle_event (ScriptOutput k out ty) s) = min (progress_of k s + 5) 95"
    by (simp add: output_progress)
  show ?thesis
    using one outputs_progress [of k es s] step_progress_above_cap [of k a s] by auto
qed

theorem output_progress_capped_witness:
  "progress_of ''get-scripts'' ex_mounted = 0
   \<and> progress_of ''get-scripts''
       (handle_event (ScriptOutput ''get-scripts'' ''line'' None) ex_mounted) = 5
   \<and> progress_of ''get-scripts''
       (run (map Inbound [ScriptOutput ''get-scripts'' ''one'' None,
                          ScriptOutput ''get-scripts'' ''two'' (Some ''error'')]) ex_mounted) = 10
   \<and> progress_of ''get-scripts''
       (step (Inbound (ExecutionComplete \<lparr> c_stage_id = ''get-scripts'', c_status = ''success'' \<rparr>))
          ex_mounted) = 100"
proof -
  let ?d = "\<lparr> c_stage_id = ''get-scripts'', c_status = ''success'' \<rparr>"
  have top: "progress_of ''get-scripts'' (step (Inbound (ExecutionComplete ?d)) ex_mounted) = 100"
    by (simp add: progress_of_def dispatch_complete_store get_key_set_key)
  from output_progress_capped [of "''get-scripts''" "''line''" None ex_mounted
      "[ScriptOutput ''get-scripts'' ''one'' None, ScriptOutput ''get-scripts'' ''two'' (Some ''error'')]"
      "Inbound (ExecutionComplete ?d)"] top
  show ?thesis by (simp add: ex_mounted_fields)
qed

text \<open>
  The claim as the specification states it has every output message add 5. After
  nineteen messages the progress is 95 and the twentieth leaves it there; after a
  completion the progress is 100 and the next output message lowers it to 95.
\<close>

theorem output_at_cap_adds_nothing:
  "progress_of ''get-scripts'' ex_capped = 95
   \<and> progress_of ''get-scripts''
       (handle_event (ScriptOutput ''get-scripts'' ''line'' None) ex_capped) = 95
   \<and> progress_of ''get-scripts'' ex_completed = 100
   \<and> progress_of ''get-scripts''
       (handle_event (ScriptOutput ''get-scripts'' ''line'' None) ex_completed) = 95"
proof -
  have "progress_of ''get-scripts'' ex_completed = 100"
    by (simp add: progress_of_def ex_completed_fields)
  then show ?thesis
    by (simp add: output_progress ex_capped_progress)
qed

section \<open>Progress after a terminal message\<close>

text \<open>
  Claim C1 at the inputs where the code departs from it. The handler of
  \<open>execution_complete\<close> stores progress 100 with every status: a run that the backend
  reports as \<open>stopped\<close> leaves the stage \<open>stopped\<close> with progress 100, and one it reports
  with any other status than \<open>success\<close> leaves it \<open>error\<close> with progress 100. Both states
  are reachable. (The rest of the claim holds in every reachable state, see
  \<open>reachable_store_ok\<close>.)
\<close>

theorem complete_stores_100_for_every_status:
  "get_key (executionStates ex_backend_stopped) ''get-scripts'' =
     Some \<lparr> progress = 100, status = Stopped \<rparr>
   \<and> get_key (executionStates ex_backend_failed) ''get-scripts'' =
     Some \<lparr> progress = 100, status = Error \<rparr>
   \<and> reachable ex_backend_stopped \<and> reachable ex_backend_failed"
proof -
  have r: "reachable ex_backend_stopped" "reachable ex_backend_failed"
    unfolding ex_backend_stopped_def ex_backend_failed_def
    by (rule reachable_run, rule reachable_init)+
  have a: "get_key (executionStates ex_backend_stopped) ''get-scripts'' =
     Some \<lparr> progress = 100, status = Stopped \<rparr>"
    by (simp add: ex_backend_stopped_def dispatch_complete_store complete_status_def
        get_key_set_key)
  have b: "get_key (executionStates ex_backend_failed) ''get-scripts'' =
     Some \<lparr> progress = 100, status = Error \<rparr>"
    by (simp add: ex_backend_failed_def dispatch_complete_store complete_status_def
        get_key_set_key)
  from a b r show ?thesis by blast
qed

section \<open>A full pipeline run that fails at its second stage\<close>

text \<open>
  Claim C2. \<open>startFullPipeline\<close> is called with a socket, no run in flight and no
  listener attached, on a pipeline that starts with the stages \<open>A\<close> and \<open>B\<close>. Then
  messages \<open>es1\<close> arrive, none of them the completion of \<open>A\<close>; then \<open>A\<close> completes with
  \<open>success\<close>; then messages \<open>es2\<close> arrive, none of them the completion of \<open>B\<close> and none
  for \<open>A\<close>; then \<open>B\<close> completes with a status that is neither \<open>success\<close> nor \<open>stopped\<close>.
  In the end \<open>A\<close> is \<open>completed\<close>, \<open>B\<close> is \<open>error\<close>, the messages emitted are the two
  \<open>execute_stage\<close> for \<open>A\<close> and \<open>B\<close> and nothing else (so none for a later stage), a stage
  that no message named keeps its entry, the last log entry is \<open>Pipeline halted at\<close> with
  the name of \<open>B\<close>, \<open>isAutoRunning\<close> is false and no listener is left.
\<close>

theorem pipeline_halts_at_failure:
  fixes A B :: stage
  assumes conn: "socket s0" and idle: "\<not> isAutoRunning s0" and nol: "listeners s0 = []"
    and ab: "sid A \<noteq> sid B"
    and e1: "list_all (\<lambda>e. \<not> is_complete_for (sid A) e) es1"
    and e2: "list_all (\<lambda>e. \<not> is_complete_for (sid B) e \<and> ev_stage e \<noteq> Some (sid A)) es2"
    and fail: "outcome \<noteq> ''success''" "outcome \<noteq> ''stopped''"
    and fin: "final = run (map Inbound (es1
                 @ [ExecutionComplete \<lparr> c_stage_id = sid A, c_status = ''success'' \<rparr>]
                 @ es2 @ [ExecutionComplete \<lparr> c_stage_id = sid B, c_status = outcome \<rparr>]))
               (startFullPipelineOn (A # B # rest) s0)"
  shows "get_key (executionStates final) (sid A) = Some \<lparr> progress = 100, status = Completed \<rparr>
    \<and> get_key (executionStates final) (sid B) = Some \<lparr> progress = 100, status = Error \<rparr>
    \<and> emitted final = emitted s0 @ [ExecuteStage (sid A) (sfile A), ExecuteStage (sid B) (sfile B)]
    \<and> (list_all (\<lambda>e. ev_stage e \<noteq> Some k) (es1 @ es2) \<and> k \<noteq> sid A \<and> k \<noteq> sid B \<longrightarrow>
         get_key (executionStates final) k = get_key (executionStates s0) k)
    \<and> last (logs final) = \<lparr> message = ''Pipeline halted at '' @ sname B, type = ''error'' \<rparr>
    \<and> \<not> isAutoRunning final
    \<and> listeners final = []"
proof -
  let ?dA = "\<lparr> c_stage_id = sid A, c_status = ''success'' \<rparr>"
  let ?dB = "\<lparr> c_stage_id = sid B, c_status = outcome \<rparr>"
  let ?wA = "\<lparr> w_id = next_id s0, w_stage = A, w_rest = B # rest \<rparr>"
  let ?wB = "\<lparr> w_id = Suc (next_id s0), w_stage = B, w_rest = rest \<rparr>"
  define s1 where "s1 = startFullPipelineOn (A # B # rest) s0"
  define s2 where "s2 = run (map Inbound es1) s1"
  define s3 where "s3 = handle_event (ExecutionComplete ?dA) s2"
  define s4 where "s4 = run (map Inbound es2) s3"
  define s5 where "s5 = handle_event (ExecutionComplete ?dB) s4"
  have final: "final = s5"
    by (simp add: fin s1_def s2_def s3_def s4_def s5_def run_append)
  \<comment> \<open>the call: the first stage is sent and awaited\<close>
  have s1: "socket s1" "isAutoRunning s1" "listeners s1 = [?wA]"
    "emitted s1 = emitted s0 @ [ExecuteStage (sid A) (sfile A)]"
    "next_id s1 = Suc (next_id s0)" "executionStates s1 = executionStates s0"
    using conn idle nol
    by (simp_all add: s1_def startFullPipelineOn_def pipeline_loop_connected addLog_def
        del: pipeline_loop.simps)
  \<comment> \<open>messages before the completion of the first stage\<close>
  have c12: "control_eq s1 s2"
    unfolding s2_def using s1(3) e1 by (intro events_control_single[where w = ?wA]) simp_all
  then have s2: "socket s2" "isAutoRunning s2" "listeners s2 = [?wA]"
    "emitted s2 = emitted s0 @ [ExecuteStage (sid A) (sfile A)]" "next_id s2 = Suc (next_id s0)"
    using s1 by (simp_all add: control_eq_def)
  \<comment> \<open>the first stage succeeds: the loop goes on with the second\<close>
  have s3_eq: "s3 = pipeline_loop (B # rest) ((on_execution_complete ?dA s2)
      \<lparr> listeners := [], resolutions := resolutions (on_execution_complete ?dA s2) @ [(next_id s0, ?dA)] \<rparr>)"
    using dispatch_single[of s2 ?wA ?dA] s2(3) by (simp add: s3_def resume_def)
  have s3: "socket s3" "isAutoRunning s3" "listeners s3 = [?wB]"
    "emitted s3 = emitted s0 @ [ExecuteStage (sid A) (sfile A), ExecuteStage (sid B) (sfile B)]"
    using s2 by (simp_all add: s3_eq pipeline_loop_connected on_execution_complete_def addLog_def
        setExecutionState_def del: pipeline_loop.simps)
  have st3: "executionStates s3 =
      set_key (sid A) \<lparr> progress = 100, status = Completed \<rparr> (executionStates s2)"
    by (simp add: s3_def dispatch_complete_store complete_status_def)
  \<comment> \<open>messages before the completion of the second stage\<close>
  have c34: "control_eq s3 s4"
    unfolding s4_def using s3(3) e2
    by (intro events_control_single[where w = ?wB]) (simp_all add: list_all_iff)
  then have s4: "socket s4" "isAutoRunning s4" "listeners s4 = [?wB]"
    "emitted s4 = emitted s0 @ [ExecuteStage (sid A) (sfile A), ExecuteStage (sid B) (sfile B)]"
    using s3 by (simp_all add: control_eq_def)
  have "list_all (\<lambda>e. ev_stage e \<noteq> Some (sid A)) es2"
    using e2 by (simp add: list_all_iff)
  then have st4A: "get_key (executionStates s4) (sid A) = get_key (executionStates s3) (sid A)"
    unfolding s4_def by (rule events_store_other)
  \<comment> \<open>the second stage fails: the loop halts\<close>
  have s5_eq: "s5 = halted B ((on_execution_complete ?dB s4)
      \<lparr> listeners := [], resolutions := resolutions (on_execution_complete ?dB s4) @ [(Suc (next_id s0), ?dB)] \<rparr>)"
    using dispatch_single[of s4 ?wB ?dB] s4(3) fail by (simp add: s5_def resume_def)
  have s5: "\<not> isAutoRunning s5" "listeners s5 = []"
    "emitted s5 = emitted s0 @ [ExecuteStage (sid A) (sfile A), ExecuteStage (sid B) (sfile B)]"
    "last (logs s5) = \<lparr> message = ''Pipeline halted at '' @ sname B, type = ''error'' \<rparr>"
    using s4 by (simp_all add: s5_eq halted_def on_execution_complete_def addLog_def
        setExecutionState_def)
  have st5: "executionStates s5 =
      set_key (sid B) \<lparr> progress = 100, status = Error \<rparr> (executionStates s4)"
    using fail by (simp add: s5_def dispatch_complete_store complete_status_def)
  have A: "get_key (executionStates s5) (sid A) = Some \<lparr> progress = 100, status = Completed \<rparr>"
    using ab by (simp add: st5 get_key_set_key st4A st3)
  have B: "get_key (executionStates s5) (sid B) = Some \<lparr> progress = 100, status = Error \<rparr>"
    by (simp add: st5 get_key_set_key)
  have other: "get_key (executionStates s5) k = get_key (executionStates s0) k"
    if k: "list_all (\<lambda>e. ev_stage e \<noteq> Some k) (es1 @ es2)" "k \<noteq> sid A" "k \<noteq> sid B"
  proof -
    from k(1) have k1: "list_all (\<lambda>e. ev_stage e \<noteq> Some k) es1"
      and k2: "list_all (\<lambda>e. ev_stage e \<noteq> Some k) es2" by simp_all
    have "get_key (executionStates s5) k = get_key (executionStates s4) k"
      using k(3) by (simp add: st5 get_key_set_key)
    also have "\<dots> = get_key (executionStates s3) k"
      unfolding s4_def using k2 by (rule events_store_other)
    also have "\<dots> = get_key (executionStates s2) k"
      using k(2) by (simp add: st3 get_key_set_key)
    also have "\<dots> = get_key (executionStates s1) k"
      unfolding s2_def using k1 by (rule events_store_other)
    finally show ?thesis by (simp add: s1)
  qed
  from A B s5 other show ?thesis unfolding final by blast
qed

theorem pipeline_halts_at_failure_witness:
  "socket ex_mounted \<and> \<not> isAutoRunning ex_mounted \<and> listeners ex_mounted = []
   \<and> get_key (executionStates ex_halted) ''get-scripts'' =
       Some \<lparr> progress = 100, status = Completed \<rparr>
   \<and> get_key (executionStates ex_halted) ''srt-generator'' =
       Some \<lparr> progress = 100, status = Error \<rparr>
   \<and> emitted ex_halted = [ExecuteStage ''get-scripts'' ''get_scripts.py'',
                           ExecuteStage ''srt-generator'' ''srt_generator.py'']
   \<and> get_key (executionStates ex_halted) ''image-suggestions'' = None
   \<and> last (logs ex_halted) =
       \<lparr> message = ''Pipeline halted at SRT Generator'', type = ''error'' \<rparr>
   \<and> \<not> isAutoRunning ex_halted
   \<and> listeners ex_halted = []"
proof -
  have fin: "ex_halted =
      run (map Inbound (ex_es1
             @ [ExecutionComplete \<lparr> c_stage_id = sid get_scripts, c_status = ''success'' \<rparr>]
             @ ex_es2
             @ [ExecutionComplete \<lparr> c_stage_id = sid srt_generator, c_status = ''error'' \<rparr>]))
        (startFullPipelineOn (get_scripts # srt_generator # later_stages) ex_mounted)"
  proof -
    have "sid get_scripts = ''get-scripts''" "sid srt_generator = ''srt-generator''"
      by (simp_all add: get_scripts_def srt_generator_def)
    then show ?thesis
      by (simp add: ex_halted_def startFullPipeline_def pipelineStages_split)
  qed
  have e1: "list_all (\<lambda>e. \<not> is_complete_for (sid get_scripts) e) ex_es1"
    by (simp add: ex_es1_def)
  have e2: "list_all (\<lambda>e. \<not> is_complete_for (sid srt_generator) e
      \<and> ev_stage e \<noteq> Some (sid get_scripts)) ex_es2"
    by (simp add: ex_es2_def get_scripts_def)
  have ne: "sid get_scripts \<noteq> sid srt_generator"
    by (simp add: get_scripts_def srt_generator_def)
  have k: "list_all (\<lambda>e. ev_stage e \<noteq> Some ''image-suggestions'') (ex_es1 @ ex_es2)"
    by (simp add: ex_es1_def ex_es2_def)
  have f: "''error'' \<noteq> ''success''" "''error'' \<noteq> ''stopped''"
    by simp_all
  from pipeline_halts_at_failure [OF ex_mounted_fields(1) ex_mounted_fields(4)
      ex_mounted_fields(3) ne e1 e2 f fin, of "''image-suggestions''"] k
  show ?thesis
    by (simp add: ex_mounted_fields get_scripts_def srt_generator_def get_key_def)
qed

section \<open>The listener of \<open>executeStageAndWait\<close>\<close>

text \<open>
  What the listener does with the messages it is attached to. Let \<open>w\<close> be a listener
  attached in a reachable state. Its promise is pending, and in no later state a promise
  has two resolutions. An \<open>execution_complete\<close> message for the stage of \<open>w\<close> takes \<open>w\<close>
  off the socket and resolves its promise with the payload of the message (the function
  suspended on the promise continues in a state where \<open>w\<close> is already detached); from
  then on the promise has exactly one resolution, whatever happens. Every other message
  (an \<open>execution_complete\<close> for another stage, and also every message of another kind)
  and every operation of the user leaves \<open>w\<close> attached and its promise pending.
\<close>

theorem observer_resolves_once:
  assumes r: "reachable s" and w: "w \<in> set (listeners s)"
  shows "w_id w \<notin> fst ` set (resolutions s)
    \<and> distinct (map fst (resolutions (run acts s)))
    \<and> (is_complete_for (sid (w_stage w)) e \<longrightarrow>
         w \<notin> set (listeners (handle_event e s))
         \<and> (\<exists>d. e = ExecutionComplete d \<and> (w_id w, d) \<in> set (resolutions (handle_event e s)))
         \<and> length (filter (\<lambda>r. fst r = w_id w) (resolutions (run acts (handle_event e s)))) = 1)
    \<and> (\<not> is_complete_for (sid (w_stage w)) e \<longrightarrow>
         w \<in> set (listeners (handle_event e s))
         \<and> w_id w \<notin> fst ` set (resolutions (handle_event e s)))
    \<and> w \<in> set (listeners (do_command c s))
    \<and> w_id w \<notin> fst ` set (resolutions (do_command c s))"
proof -
  from r have ok: "observers_ok s" by (rule reachable_observers_ok)
  have 1: "w_id w \<notin> fst ` set (resolutions s)"
    using ok w by (rule attached_unresolved)
  have "reachable (run acts s)" using r by (rule reachable_run)
  then have 2: "distinct (map fst (resolutions (run acts s)))"
    by (auto dest: reachable_observers_ok simp: observers_ok_def)
  have 3: "w \<notin> set (listeners (handle_event e s))
      \<and> (\<exists>d. e = ExecutionComplete d \<and> (w_id w, d) \<in> set (resolutions (handle_event e s)))
      \<and> length (filter (\<lambda>r. fst r = w_id w) (resolutions (run acts (handle_event e s)))) = 1"
    if c: "is_complete_for (sid (w_stage w)) e"
  proof -
    from c obtain d where e: "e = ExecutionComplete d" and m: "c_stage_id d = sid (w_stage w)"
      by (cases e) auto
    note cd = complete_detaches_and_resolves[OF ok w m]
    have "reachable (run acts (step (Inbound e) s))"
      using r by (intro reachable_run reachable_step)
    then have "distinct (map fst (resolutions (run acts (handle_event e s))))"
      by (auto dest: reachable_observers_ok simp: observers_ok_def)
    moreover have "(w_id w, d) \<in> set (resolutions (run acts (handle_event e s)))"
      using cd(2) run_resolutions_grow[of "handle_event e s" acts] by (auto simp: e)
    ultimately have "length (filter (\<lambda>r. fst r = w_id w)
        (resolutions (run acts (handle_event e s)))) = 1"
      by (rule count_one)
    with cd show ?thesis by (simp add: e)
  qed
  have 4: "w \<in> set (listeners (handle_event e s))
      \<and> w_id w \<notin> fst ` set (resolutions (handle_event e s))"
    if n: "\<not> is_complete_for (sid (w_stage w)) e"
  proof -
    have k: "w \<in> set (listeners (handle_event e s))"
      using ok w n by (rule event_keeps_listener)
    have "observers_ok (handle_event e s)" using ok by (rule observers_ok_event)
    from attached_unresolved[OF this k] k show ?thesis by simp
  qed
  have k: "w \<in> set (listeners (do_command c s))"
    using w command_grows(1)[of s c] by auto
  have "observers_ok (do_command c s)" using ok by (rule observers_ok_command)
  from attached_unresolved[OF this k] have 5: "w_id w \<notin> fst ` set (resolutions (do_command c s))" .
  from 1 2 3 4 k 5 show ?thesis by blast
qed

theorem observer_resolves_once_witness:
  "reachable ex_auto \<and> listeners ex_auto = [ex_waiter]
   \<and> sid (w_stage ex_waiter) = ''get-scripts''
   \<and> ex_waiter \<notin> set (listeners (handle_event
        (ExecutionComplete \<lparr> c_stage_id = ''get-scripts'', c_status = ''stopped'' \<rparr>) ex_auto))
   \<and> length (filter (\<lambda>r. fst r = w_id ex_waiter) (resolutions
        (run [Inbound (ExecutionComplete \<lparr> c_stage_id = ''get-scripts'', c_status = ''success'' \<rparr>),
              User StartAll]
          (handle_event
            (ExecutionComplete \<lparr> c_stage_id = ''get-scripts'', c_status = ''stopped'' \<rparr>)
            ex_auto)))) = 1
   \<and> ex_waiter \<in> set (listeners (handle_event
        (ExecutionComplete \<lparr> c_stage_id = ''srt-generator'', c_status = ''success'' \<rparr>) ex_auto))
   \<and> w_id ex_waiter \<notin> fst ` set (resolutions (handle_event
        (ExecutionComplete \<lparr> c_stage_id = ''srt-generator'', c_status = ''success'' \<rparr>) ex_auto))
   \<and> ex_waiter \<in> set (listeners (do_command Stop ex_auto))"
proof -
  have r: "reachable ex_auto"
    unfolding ex_auto_def by (rule reachable_run, rule reachable_init)
  have l: "listeners ex_auto = [ex_waiter]"
    by (simp add: ex_auto_def ex_waiter_def op_defs)
  then have w: "ex_waiter \<in> set (listeners ex_auto)" by simp
  have k: "sid (w_stage ex_waiter) = ''get-scripts''"
    by (simp add: ex_waiter_def get_scripts_def)
  from observer_resolves_once [OF r w,
      of "[Inbound (ExecutionComplete \<lparr> c_stage_id = ''get-scripts'', c_status = ''success'' \<rparr>),
           User StartAll]"
         "ExecutionComplete \<lparr> c_stage_id = ''get-scripts'', c_status = ''stopped'' \<rparr>" Stop]
    observer_resolves_once [OF r w, of "[]"
         "ExecutionComplete \<lparr> c_stage_id = ''srt-generator'', c_status = ''success'' \<rparr>" Stop]
    r l
  show ?thesis by (simp add: k)
qed

text \<open>
  Claim C9 at the input where the code departs from it. The terminal messages of a stage
  are \<open>execution_complete\<close> and \<open>execution_error\<close>, and the listener is attached to
  \<open>execution_complete\<close> only. In \<open>ex_auto\<close> a full pipeline run waits for its first stage.
  An \<open>execution_error\<close> for that stage sets the stage to \<open>error\<close>, but the listener stays
  attached, no promise is resolved, nothing is logged about a halt and \<open>isAutoRunning\<close>
  stays true: the run never ends. The other failure path, an \<open>execution_complete\<close> with
  the status \<open>error\<close>, detaches the listener, resolves the promise, logs the halt and
  clears \<open>isAutoRunning\<close>.
\<close>

theorem execution_error_resolves_nothing:
  "reachable ex_auto \<and> listeners ex_auto = [ex_waiter]
   \<and> sid (w_stage ex_waiter) = ''get-scripts''
   \<and> get_key (executionStates (handle_event (ExecutionError ''get-scripts'' ''boom'') ex_auto))
        ''get-scripts'' = Some \<lparr> progress = 0, status = Error \<rparr>
   \<and> listeners (handle_event (ExecutionError ''get-scripts'' ''boom'') ex_auto) = [ex_waiter]
   \<and> resolutions (handle_event (ExecutionError ''get-scripts'' ''boom'') ex_auto) = []
   \<and> isAutoRunning (handle_event (ExecutionError ''get-scripts'' ''boom'') ex_auto)
   \<and> last (logs (handle_event (ExecutionError ''get-scripts'' ''boom'') ex_auto)) =
        \<lparr> message = ''Error: boom'', type = ''error'' \<rparr>
   \<and> listeners (handle_event
        (ExecutionComplete \<lparr> c_stage_id = ''get-scripts'', c_status = ''error'' \<rparr>) ex_auto) = []
   \<and> resolutions (handle_event
        (ExecutionComplete \<lparr> c_stage_id = ''get-scripts'', c_status = ''error'' \<rparr>) ex_auto) =
        [(0, \<lparr> c_stage_id = ''get-scripts'', c_status = ''error'' \<rparr>)]
   \<and> \<not> isAutoRunning (handle_event
        (ExecutionComplete \<lparr> c_stage_id = ''get-scripts'', c_status = ''error'' \<rparr>) ex_auto)
   \<and> last (logs (handle_event
        (ExecutionComplete \<lparr> c_stage_id = ''get-scripts'', c_status = ''error'' \<rparr>) ex_auto)) =
        \<lparr> message = ''Pipeline halted at Get Scripts'', type = ''error'' \<rparr>"
proof -
  have r: "reachable ex_auto"
    unfolding ex_auto_def by (rule reachable_run, rule reachable_init)
  have rest: "listeners ex_auto = [ex_waiter] \<and> sid (w_stage ex_waiter) = ''get-scripts''
   \<and> get_key (executionStates (handle_event (ExecutionError ''get-scripts'' ''boom'') ex_auto))
        ''get-scripts'' = Some \<lparr> progress = 0, status = Error \<rparr>
   \<and> listeners (handle_event (ExecutionError ''get-scripts'' ''boom'') ex_auto) = [ex_waiter]
   \<and> resolutions (handle_event (ExecutionError ''get-scripts'' ''boom'') ex_auto) = []
   \<and> isAutoRunning (handle_event (ExecutionError ''get-scripts'' ''boom'') ex_auto)
   \<and> last (logs (handle_event (ExecutionError ''get-scripts'' ''boom'') ex_auto)) =
        \<lparr> message = ''Error: boom'', type = ''error'' \<rparr>
   \<and> listeners (handle_event
        (ExecutionComplete \<lparr> c_stage_id = ''get-scripts'', c_status = ''error'' \<rparr>) ex_auto) = []
   \<and> resolutions (handle_event
        (ExecutionComplete \<lparr> c_stage_id = ''get-scripts'', c_status = ''error'' \<rparr>) ex_auto) =
        [(0, \<lparr> c_stage_id = ''get-scripts'', c_status = ''error'' \<rparr>)]
   \<and> \<not> isAutoRunning (handle_event
        (ExecutionComplete \<lparr> c_stage_id = ''get-scripts'', c_status = ''error'' \<rparr>) ex_auto)
   \<and> last (logs (handle_event
        (ExecutionComplete \<lparr> c_stage_id = ''get-scripts'', c_status = ''error'' \<rparr>) ex_auto)) =
        \<lparr> message = ''Pipeline halted at Get Scripts'', type = ''error'' \<rparr>"
    by (simp add: ex_auto_def ex_waiter_def op_defs)
  with r show ?thesis by blast
qed

end
